theory Spec2Isabelle
  imports Complex_Main "HOL-Library.Sublist" "HOL-Library.List_Lexorder" "HOL-Library.Char_ord"
begin

section \<open>Text and the regular expressions of the source\<close>

text \<open>
  Python text is a sequence of code points. It is modelled as \<^typ>\<open>string\<close>, whose
  characters are the code points below 256. On that range the classes of the \<open>re\<close>
  module are: \<open>\s\<close> (and \<open>str.strip\<close>) the characters 9-13, 28-32, 133 and 160; \<open>\d\<close>
  the ten ASCII digits; under \<open>IGNORECASE\<close> an ASCII letter of a pattern matches its
  upper and its lower case form.
\<close>

definition is_space :: "char \<Rightarrow> bool" where
  "is_space c \<longleftrightarrow> c \<in> {CHR 0x09, CHR 0x0A, CHR 0x0B, CHR 0x0C, CHR 0x0D,
     CHR 0x1C, CHR 0x1D, CHR 0x1E, CHR 0x1F, CHR 0x20, CHR 0x85, CHR 0xA0}"

definition is_digit :: "char \<Rightarrow> bool" where
  "is_digit c \<longleftrightarrow> c \<in> set ''0123456789''"

definition ascii_lower :: "char \<Rightarrow> char" where
  "ascii_lower c =
     (case map_of (zip ''ABCDEFGHIJKLMNOPQRSTUVWXYZ'' ''abcdefghijklmnopqrstuvwxyz'') c of
        Some l \<Rightarrow> l | None \<Rightarrow> c)"

text \<open>A literal of a pattern compiled with \<open>IGNORECASE\<close>, matched at the head of the
  text: the rest of the text after it, or \<open>None\<close>.\<close>

fun lit_ci :: "string \<Rightarrow> string \<Rightarrow> string option" where
  "lit_ci [] s = Some s"
| "lit_ci (p # ps) [] = None"
| "lit_ci (p # ps) (c # cs) =
     (if ascii_lower c = ascii_lower p then lit_ci ps cs else None)"

text \<open>\<open>\(Disc\s*\d+\)\<close> with \<open>IGNORECASE\<close>, matched at the head of the text: the
  matched text, or \<open>None\<close>. The three classes \<open>\s\<close>, \<open>\d\<close> and \<open>)\<close> are disjoint, so
  the greedy match is the only one.\<close>

definition match_disc :: "string \<Rightarrow> string option" where
  "match_disc s =
     (case lit_ci ''(Disc'' s of
        None \<Rightarrow> None
      | Some r1 \<Rightarrow>
          (let r2 = dropWhile is_space r1;
               ds = takeWhile is_digit r2;
               r3 = dropWhile is_digit r2
           in if ds = [] then None
              else (case r3 of
                      [] \<Rightarrow> None
                    | c # r4 \<Rightarrow>
                        if c = CHR '')'' then Some (take (length s - length r4) s)
                        else None)))"

text \<open>\<open>re.search\<close>: the leftmost match.\<close>

fun search_disc :: "string \<Rightarrow> string option" where
  "search_disc [] = None"
| "search_disc (c # cs) =
     (case match_disc (c # cs) of Some m \<Rightarrow> Some m | None \<Rightarrow> search_disc cs)"

text \<open>\<open>\s*\([^)]+\)\<close> and \<open>\s*\[[^\]]+\]\<close>, matched at the head of the text, for the
  opening character \<open>opn\<close> and the closing one \<open>cls\<close>: the rest of the text after the
  match, or \<open>None\<close>.\<close>

definition match_group :: "char \<Rightarrow> char \<Rightarrow> string \<Rightarrow> string option" where
  "match_group opn cls s =
     (case dropWhile is_space s of
        [] \<Rightarrow> None
      | c # r \<Rightarrow>
          if c = opn then
            (let body = takeWhile (\<lambda>x. x \<noteq> cls) r;
                 r' = dropWhile (\<lambda>x. x \<noteq> cls) r
             in if body = [] then None
                else (case r' of [] \<Rightarrow> None | _ # r'' \<Rightarrow> Some r''))
          else None)"

lemma match_group_shorter:
  "match_group opn cls s = Some r \<Longrightarrow> length r < length s"
proof -
  assume a: "match_group opn cls s = Some r"
  then obtain c t where d: "dropWhile is_space s = c # t"
    by (auto simp: match_group_def split: list.splits)
  from a d obtain x where r: "dropWhile (\<lambda>x. x \<noteq> cls) t = x # r"
    by (auto simp: match_group_def Let_def split: list.splits if_splits)
  have "length (x # r) \<le> length t"
    unfolding r [symmetric] by (rule length_dropWhile_le)
  moreover have "length (c # t) \<le> length s"
    unfolding d [symmetric] by (rule length_dropWhile_le)
  ultimately show ?thesis by simp
qed

text \<open>\<open>re.sub(pattern, '', name)\<close> for these two patterns: the matches are removed from
  left to right; a character at which no match starts is kept.\<close>

function sub_group :: "char \<Rightarrow> char \<Rightarrow> string \<Rightarrow> string" where
  "sub_group opn cls [] = []"
| "sub_group opn cls (c # cs) =
     (case match_group opn cls (c # cs) of
        Some r \<Rightarrow> sub_group opn cls r
      | None \<Rightarrow> c # sub_group opn cls cs)"
  by pat_completeness auto
termination
  by (relation "measure (\<lambda>(opn, cls, s). length s)")
     (auto dest: match_group_shorter)

text \<open>\<open>re.sub(r'\s+', ' ', name)\<close>.\<close>

function collapse_ws :: "string \<Rightarrow> string" where
  "collapse_ws [] = []"
| "collapse_ws (c # cs) =
     (if is_space c then CHR '' '' # collapse_ws (dropWhile is_space cs)
      else c # collapse_ws cs)"
  by pat_completeness auto
termination
  by (relation "measure length") (auto simp: le_imp_less_Suc length_dropWhile_le)

text \<open>\<open>str.strip()\<close>.\<close>

definition strip :: "string \<Rightarrow> string" where
  "strip s = rev (dropWhile is_space (rev (dropWhile is_space s)))"

section \<open>The name cleaning transform\<close>

text \<open>The value of the variable \<open>name\<close> of \<open>clean_game_name\<close> before the disc tag is
  added again.\<close>

definition base_name :: "string \<Rightarrow> string" where
  "base_name filename =
     strip (collapse_ws (sub_group CHR ''['' CHR '']'' (sub_group CHR ''('' CHR '')'' filename)))"

definition clean_game_name :: "string \<Rightarrow> string" where
  "clean_game_name filename =
     (let disc_tag = (case search_disc filename of Some m \<Rightarrow> m | None \<Rightarrow> []);
          name = base_name filename
      in if disc_tag \<noteq> [] then name @ '' '' @ disc_tag else name)"

section \<open>Paths\<close>

text \<open>
  A \<open>pathlib\<close> path is the list of its parts; an absolute path has the anchor \<open>/\<close> as
  its first part. Paths are compared part by part, as \<open>pathlib\<close> does; the flavour of
  the host decides whether the case of a letter counts, in the comparison and in a
  glob pattern: \<open>casefold\<close> is the identity on a POSIX host and the lower-case map on
  Windows.
\<close>

type_synonym path = "string list"

definition anchor :: string where
  "anchor = ''/''"

definition name :: "path \<Rightarrow> string" where
  "name p = (if p = [] \<or> p = [anchor] then [] else last p)"

definition parent :: "path \<Rightarrow> path" where
  "parent p = (if p = [] \<or> p = [anchor] then p else butlast p)"

text \<open>\<open>name.rfind('.')\<close> splits a name into stem and suffix when the last dot is
  neither the first nor the last character.\<close>

definition split_ext :: "string \<Rightarrow> string \<times> string" where
  "split_ext n =
     (let e = takeWhile (\<lambda>c. c \<noteq> CHR ''.'') (rev n);
          st = drop (Suc (length e)) (rev n)
      in if CHR ''.'' \<in> set n \<and> e \<noteq> [] \<and> st \<noteq> [] then (rev st, CHR ''.'' # rev e)
         else (n, []))"

definition stem :: "path \<Rightarrow> string" where
  "stem p = fst (split_ext (name p))"

definition suffix_of :: "path \<Rightarrow> string" where
  "suffix_of p = snd (split_ext (name p))"

datatype exn = ValueError | FileNotFoundError | PermissionError | FileExistsError
  | BadZipFile | TarError | TimeoutExpired | OtherError

text \<open>\<open>path.with_suffix(s)\<close> raises \<open>ValueError\<close> for a path with an empty name.\<close>

definition with_suffix :: "path \<Rightarrow> string \<Rightarrow> exn + path" where
  "with_suffix p s =
     (if name p = [] then Inl ValueError else Inr (butlast p @ [stem p @ s]))"

text \<open>\<open>dir / name\<close> for a name that is one part.\<close>

definition child :: "path \<Rightarrow> string \<Rightarrow> path" where
  "child d n = d @ [n]"

text \<open>\<open>dir / text\<close> for any text: the text is split at \<open>/\<close>, empty parts and \<open>.\<close> are
  dropped, and a text that starts with \<open>/\<close> replaces the directory.\<close>

fun split_sep :: "string \<Rightarrow> string \<Rightarrow> string list" where
  "split_sep acc [] = [rev acc]"
| "split_sep acc (c # cs) =
     (if c = CHR ''/'' then rev acc # split_sep [] cs else split_sep (c # acc) cs)"

definition parts :: "string \<Rightarrow> path" where
  "parts t = filter (\<lambda>x. x \<noteq> [] \<and> x \<noteq> ''.'') (split_sep [] t)"

definition joinpath :: "path \<Rightarrow> string \<Rightarrow> path" where
  "joinpath d t = (case t of
       [] \<Rightarrow> d
     | c # _ \<Rightarrow> if c = CHR ''/'' then anchor # parts t else d @ parts t)"

text \<open>\<open>str(counter)\<close>.\<close>

definition digit :: "nat \<Rightarrow> char" where
  "digit d = ''0123456789'' ! d"

fun str_nat :: "nat \<Rightarrow> string" where
  "str_nat n = (if n < 10 then [digit n] else str_nat (n div 10) @ [digit (n mod 10)])"

declare str_nat.simps [simp del]

section \<open>The file system\<close>

text \<open>
  The file system is a finite table from paths to nodes. A regular file has its text
  (what \<open>open(..., errors='ignore').read()\<close> returns) and its size in bytes; a directory
  has a size only. The first entry of a path is the one that counts.
\<close>

datatype node = File (content: string) (st_size: nat) | Directory (st_size: nat)

type_synonym filesystem = "(path \<times> node) list"

definition fexists :: "filesystem \<Rightarrow> path \<Rightarrow> bool" where
  "fexists fs p \<longleftrightarrow> map_of fs p \<noteq> None"

definition paths :: "filesystem \<Rightarrow> path list" where
  "paths fs = remdups (map fst fs)"

definition read_text :: "filesystem \<Rightarrow> path \<Rightarrow> exn + string" where
  "read_text fs p = (case map_of fs p of
       None \<Rightarrow> Inl FileNotFoundError
     | Some (Directory _) \<Rightarrow> Inl PermissionError
     | Some (File t _) \<Rightarrow> Inr t)"

definition stat_size :: "filesystem \<Rightarrow> path \<Rightarrow> exn + nat" where
  "stat_size fs p = (case map_of fs p of
       None \<Rightarrow> Inl FileNotFoundError
     | Some n \<Rightarrow> Inr (st_size n))"

definition remove_path :: "path \<Rightarrow> filesystem \<Rightarrow> filesystem" where
  "remove_path p fs = filter (\<lambda>e. fst e \<noteq> p) fs"

text \<open>\<open>path.unlink()\<close>.\<close>

definition unlink :: "path \<Rightarrow> filesystem \<Rightarrow> exn + filesystem" where
  "unlink p fs = (case map_of fs p of
       None \<Rightarrow> Inl FileNotFoundError
     | Some (Directory _) \<Rightarrow> Inl PermissionError
     | Some (File _ _) \<Rightarrow> Inr (remove_path p fs))"

text \<open>\<open>path.mkdir(exist_ok=True)\<close>, in a parent folder that exists.\<close>

definition mkdir :: "path \<Rightarrow> filesystem \<Rightarrow> exn + filesystem" where
  "mkdir p fs = (case map_of fs p of
       None \<Rightarrow> Inr (fs @ [(p, Directory 0)])
     | Some (Directory _) \<Rightarrow> Inr fs
     | Some (File _ _) \<Rightarrow> Inl FileExistsError)"

text \<open>\<open>shutil.move(src, dst)\<close> for a destination that does not exist: the source and,
  when it is a directory, everything beneath it, is renamed. A source cannot be moved
  into itself.\<close>

definition move_path :: "path \<Rightarrow> path \<Rightarrow> filesystem \<Rightarrow> exn + filesystem" where
  "move_path src dst fs =
     (if \<not> fexists fs src then Inl FileNotFoundError
      else if prefix src dst then Inl OtherError
      else Inr (map (\<lambda>(q, n). if prefix src q then (dst @ drop (length src) q, n) else (q, n))
                  fs))"


text \<open>\<open>dir.glob("*" + ext)\<close> and \<open>dir.rglob("*" + ext)\<close>: the entries in the directory,
  or anywhere beneath it, whose name ends with \<open>ext\<close>.\<close>

definition name_matches :: "(char \<Rightarrow> char) \<Rightarrow> string \<Rightarrow> string \<Rightarrow> bool" where
  "name_matches casefold ext n \<longleftrightarrow> suffix (map casefold ext) (map casefold n)"

definition is_dir :: "filesystem \<Rightarrow> path \<Rightarrow> bool" where
  "is_dir fs p = (case map_of fs p of Some (Directory _) \<Rightarrow> True | _ \<Rightarrow> False)"

definition glob :: "(char \<Rightarrow> char) \<Rightarrow> filesystem \<Rightarrow> path \<Rightarrow> string \<Rightarrow> path list" where
  "glob casefold fs d ext =
     filter (\<lambda>p. strict_prefix d p \<and> butlast p = d \<and> name_matches casefold ext (name p))
       (paths fs)"

definition rglob :: "(char \<Rightarrow> char) \<Rightarrow> filesystem \<Rightarrow> path \<Rightarrow> string \<Rightarrow> path list" where
  "rglob casefold fs d ext =
     filter (\<lambda>p. strict_prefix d p \<and> name_matches casefold ext (name p)) (paths fs)"

text \<open>\<open>sorted(files)\<close>.\<close>

definition sorted_paths :: "(char \<Rightarrow> char) \<Rightarrow> path list \<Rightarrow> path list" where
  "sorted_paths casefold ps = sort_key (map (map casefold)) ps"

text \<open>The \<open>while dest.exists()\<close> loops that look for a free destination name. The
  candidates are \<open>dir / (pre + str(counter) + post)\<close>; they differ for different
  counters and the table is finite, so the loop ends.\<close>

lemma digit_code: "d < 10 \<Longrightarrow> of_char (digit d) = 48 + d"
proof -
  assume "d < 10"
  then have "d \<in> {0, 1, 2, 3, 4, 5, 6, 7, 8, 9}" by auto
  then show ?thesis by (auto simp: digit_def)
qed

lemma digit_inj: "a < 10 \<Longrightarrow> b < 10 \<Longrightarrow> digit a = digit b \<Longrightarrow> a = b"
proof -
  assume a: "a < 10" and b: "b < 10" and e: "digit a = digit b"
  have "(of_char (digit a) :: nat) = of_char (digit b)" using e by simp
  then show "a = b" using a b by (simp add: digit_code)
qed

lemma str_nat_length: "length (str_nat n) = (if n < 10 then 1 else Suc (length (str_nat (n div 10))))"
  by (subst str_nat.simps) simp

lemma str_nat_not_Nil: "str_nat n \<noteq> []"
  by (subst str_nat.simps) simp

lemma str_nat_inj: "str_nat a = str_nat b \<Longrightarrow> a = b"
proof (induction a arbitrary: b rule: str_nat.induct)
  case (1 n)
  show ?case
  proof (cases "n < 10")
    case True
    have l: "length (str_nat b) = 1"
      using "1.prems" True by (metis str_nat_length)
    have "b < 10"
    proof (rule ccontr)
      assume "\<not> b < 10"
      then have "length (str_nat b) = Suc (length (str_nat (b div 10)))"
        by (simp add: str_nat_length)
      with l str_nat_not_Nil [of "b div 10"] show False by simp
    qed
    with True "1.prems" show ?thesis
      by (simp add: str_nat.simps [of n] str_nat.simps [of b] digit_inj)
  next
    case False
    have l: "length (str_nat b) = Suc (length (str_nat (n div 10)))"
      using "1.prems" False by (metis str_nat_length)
    have nb: "\<not> b < 10"
    proof
      assume "b < 10"
      then have "length (str_nat b) = 1" by (simp add: str_nat_length)
      with l str_nat_not_Nil [of "n div 10"] show False by simp
    qed
    from "1.prems" False nb
    have e: "str_nat (n div 10) @ [digit (n mod 10)] = str_nat (b div 10) @ [digit (b mod 10)]"
      by (simp add: str_nat.simps [of n] str_nat.simps [of b])
    then have "str_nat (n div 10) = str_nat (b div 10)" and d: "digit (n mod 10) = digit (b mod 10)"
      by simp_all
    then have q: "n div 10 = b div 10" using "1.IH" False by blast
    have "n mod 10 = b mod 10" using d by (intro digit_inj) simp_all
    with q show ?thesis by (metis div_mult_mod_eq)
  qed
qed

lemma fexists_iff: "fexists fs p \<longleftrightarrow> p \<in> fst ` set fs"
  by (simp add: fexists_def map_of_eq_None_iff)

lemma finite_taken_counters:
  "finite {k. c \<le> k \<and> fexists fs (child d (pre @ str_nat k @ post))}"
proof -
  have inj: "inj (\<lambda>k. child d (pre @ str_nat k @ post))"
    by (auto simp: inj_on_def child_def dest: str_nat_inj)
  have "finite ((\<lambda>k. child d (pre @ str_nat k @ post)) -` (fst ` set fs))"
    by (rule finite_vimageI [OF _ inj]) simp
  moreover have "{k. c \<le> k \<and> fexists fs (child d (pre @ str_nat k @ post))}
      \<subseteq> (\<lambda>k. child d (pre @ str_nat k @ post)) -` (fst ` set fs)"
    by (auto simp: fexists_iff)
  ultimately show ?thesis by (rule rev_finite_subset)
qed

lemma taken_counters_step:
  "{k. c \<le> k \<and> fexists fs (child d (pre @ str_nat k @ post))} =
     (if fexists fs (child d (pre @ str_nat c @ post)) then {c} else {}) \<union>
     {k. Suc c \<le> k \<and> fexists fs (child d (pre @ str_nat k @ post))}"
  by (auto simp: Suc_le_eq le_less)

function unique_dest :: "filesystem \<Rightarrow> path \<Rightarrow> string \<Rightarrow> string \<Rightarrow> path \<Rightarrow> nat \<Rightarrow> path" where
  "unique_dest fs d pre post dest counter =
     (if fexists fs dest
      then unique_dest fs d pre post (child d (pre @ str_nat counter @ post)) (counter + 1)
      else dest)"
  by pat_completeness auto
termination
proof (relation "measure (\<lambda>(fs, d, pre, post, dest, counter).
         card {k. counter \<le> k \<and> fexists fs (child d (pre @ str_nat k @ post))}
         + (if fexists fs dest then 1 else 0))", goal_cases)
  case 1
  show ?case by simp
next
  case (2 fs d pre post dest counter)
  let ?A = "{k. Suc counter \<le> k \<and> fexists fs (child d (pre @ str_nat k @ post))}"
  have fin: "finite ?A" by (rule finite_taken_counters)
  have notin: "counter \<notin> ?A" by simp
  have "card {k. counter \<le> k \<and> fexists fs (child d (pre @ str_nat k @ post))}
      = (if fexists fs (child d (pre @ str_nat counter @ post)) then Suc (card ?A) else card ?A)"
    by (subst taken_counters_step) (simp add: fin)
  with 2 show ?case by simp
qed

declare unique_dest.simps [simp del]

section \<open>The application state and its surroundings\<close>

text \<open>
  What the converter does outside its own code is a parameter of the model: the letter
  case of the host, the external converter \<open>chdman\<close> (run through \<open>subprocess.run\<close>),
  and the archive decoders. Each takes the file system and returns the new one.
\<close>

datatype chd_mode = createcd | createdvd

datatype proc = Exited int string | TimedOut | Crashed

record env =
  casefold :: "char \<Rightarrow> char"
  chdman :: "chd_mode \<Rightarrow> path \<Rightarrow> path \<Rightarrow> filesystem \<Rightarrow> proc \<times> filesystem"
  unzip :: "path \<Rightarrow> path \<Rightarrow> filesystem \<Rightarrow> exn option \<times> filesystem"
  untar :: "string \<Rightarrow> path \<Rightarrow> path \<Rightarrow> filesystem \<Rightarrow> exn option \<times> filesystem"
  seven_zip :: "path \<Rightarrow> path \<Rightarrow> filesystem \<Rightarrow> proc \<times> filesystem"

text \<open>The lines of the log, one constructor for each message of the source.\<close>

datatype log_event =
    LogCueError | LogMissingBin string
  | LogChdExists string | LogUnsupportedType string
  | LogConverting chd_mode string string | LogSuccess nat nat
  | LogConversionFailed string | LogTimeout | LogException
  | LogMovedToBackup string | LogBackupError
  | LogDeleted string | LogDeleteError
  | LogProcessing nat nat string
  | LogStopped | LogJobException string
  | LogNoGameFiles | LogStarting nat | LogComplete nat nat nat | LogSavings nat nat
  | LogExtractingAll | LogNoCompressed | LogFoundCompressed "string list" | LogExtractedCount nat
  | LogExtractZip string | LogExtractTar string | LogExtract7z string | LogExtractedTo string
  | LogNo7zip string | Log7zFailed string | LogUnsupportedArchive string
  | LogBadZip string | LogTarError | LogExtractTimeout string | LogExtractError
  | LogDeletedArchive string | LogArchiveNotDeleted

datatype dialog = WarnInvalidDirectory | WarnConflictingOptions | AskConfirmDeletion

text \<open>
  The fields of \<open>ROMConverter\<close> that the conversion reads and writes, and the file
  system. \<open>calls\<close> and \<open>extract_calls\<close> record every run of the external converter and
  every call of \<open>extract_archive\<close>, in order; \<open>dialogs\<close> records the message boxes.
\<close>

record app =
  disk :: filesystem
  log :: "log_event list"
  calls :: "(chd_mode \<times> path \<times> path) list"
  extract_calls :: "path list"
  dialogs :: "dialog list"
  source_dir :: path
  recursive :: bool
  process_ps1_cues :: bool
  process_ps2_isos :: bool
  extract_compressed :: bool
  delete_archives_after_extract :: bool
  delete_originals :: bool
  move_to_backup :: bool
  seven_zip_path :: string
  cpu_cores :: nat
  is_converting :: bool
  metrics_running :: bool
  total_original_size :: nat
  total_chd_size :: nat
  total_jobs :: nat
  completed_jobs :: nat
  conversion_start_time :: real
  file_start_times :: "(path \<times> real) list"
  file_durations :: "real list"

definition say :: "log_event \<Rightarrow> app \<Rightarrow> app" where
  "say e s = s\<lparr>log := log s @ [e]\<rparr>"

section \<open>The sidecar resolver\<close>

text \<open>\<open>FILE\s+"([^"]+)"\s+BINARY\<close> with \<open>IGNORECASE\<close>, matched at the head of the text:
  the quoted name and the rest of the text after the match.\<close>

definition match_file :: "string \<Rightarrow> (string \<times> string) option" where
  "match_file s =
     (case lit_ci ''FILE'' s of
        None \<Rightarrow> None
      | Some r1 \<Rightarrow>
          if takeWhile is_space r1 = [] then None
          else (case dropWhile is_space r1 of
                  [] \<Rightarrow> None
                | q # r2 \<Rightarrow>
                    if q \<noteq> CHR 0x22 then None
                    else (let g = takeWhile (\<lambda>x. x \<noteq> CHR 0x22) r2;
                              r3 = dropWhile (\<lambda>x. x \<noteq> CHR 0x22) r2
                          in if g = [] then None
                             else (case r3 of
                                     [] \<Rightarrow> None
                                   | _ # r4 \<Rightarrow>
                                       if takeWhile is_space r4 = [] then None
                                       else (case lit_ci ''BINARY'' (dropWhile is_space r4) of
                                               None \<Rightarrow> None
                                             | Some r5 \<Rightarrow> Some (g, r5))))))"

lemma lit_ci_length: "lit_ci p s = Some r \<Longrightarrow> length r \<le> length s"
  by (induction p s rule: lit_ci.induct) (auto split: if_splits)

lemma match_file_shorter:
  assumes "match_file s = Some (g, r)"
  shows "length r < length s"
proof -
  from assms obtain r1 where r1: "lit_ci ''FILE'' s = Some r1"
    by (auto simp: match_file_def split: option.splits)
  from assms r1 obtain q r2 where r2: "dropWhile is_space r1 = q # r2"
    by (auto simp: match_file_def split: if_splits list.splits)
  from assms r1 r2 obtain x r4 where r4: "dropWhile (\<lambda>x. x \<noteq> CHR 0x22) r2 = x # r4"
    by (auto simp: match_file_def Let_def split: if_splits list.splits)
  from assms r1 r2 r4 have r5: "lit_ci ''BINARY'' (dropWhile is_space r4) = Some r"
    by (auto simp: match_file_def Let_def split: if_splits list.splits option.splits)
  have "length r \<le> length (dropWhile is_space r4)"
    using r5 by (rule lit_ci_length)
  also have "\<dots> \<le> length r4" by (rule length_dropWhile_le)
  also have "\<dots> < length (x # r4)" by simp
  also have "\<dots> \<le> length r2" unfolding r4 [symmetric] by (rule length_dropWhile_le)
  also have "\<dots> < length (q # r2)" by simp
  also have "\<dots> \<le> length r1" unfolding r2 [symmetric] by (rule length_dropWhile_le)
  also have "\<dots> \<le> length s" using r1 by (rule lit_ci_length)
  finally show ?thesis .
qed

text \<open>\<open>file_pattern.findall(content)\<close>: the quoted names of the matches, from left to
  right; the search goes on after the end of a match.\<close>

function findall_file :: "string \<Rightarrow> string list" where
  "findall_file [] = []"
| "findall_file (c # cs) =
     (case match_file (c # cs) of
        Some (g, r) \<Rightarrow> g # findall_file r
      | None \<Rightarrow> findall_file cs)"
  by pat_completeness auto
termination
  by (relation "measure length") (auto dest: match_file_shorter)

text \<open>The loop of \<open>parse_cue_file\<close> over the matches: a reference that exists is kept,
  a missing one is logged.\<close>

fun resolve_bins :: "path \<Rightarrow> string list \<Rightarrow> app \<Rightarrow> path list \<times> app" where
  "resolve_bins cue_dir [] s = ([], s)"
| "resolve_bins cue_dir (m # ms) s =
     (let bin_path = joinpath cue_dir m
      in if fexists (disk s) bin_path
         then (let (bin_files, s') = resolve_bins cue_dir ms s in (bin_path # bin_files, s'))
         else resolve_bins cue_dir ms (say (LogMissingBin m) s))"

definition parse_cue_file :: "path \<Rightarrow> app \<Rightarrow> path list \<times> app" where
  "parse_cue_file cue_path s =
     (case read_text (disk s) cue_path of
        Inl e \<Rightarrow> ([], say LogCueError s)
      | Inr txt \<Rightarrow> resolve_bins (parent cue_path) (findall_file txt) s)"

section \<open>The conversion of one file\<close>

text \<open>\<open>sum(f.stat().st_size for f in bin_files)\<close>.\<close>

fun sum_sizes :: "filesystem \<Rightarrow> path list \<Rightarrow> exn + nat" where
  "sum_sizes fs [] = Inr 0"
| "sum_sizes fs (f # bs) =
     (case stat_size fs f of
        Inl e \<Rightarrow> Inl e
      | Inr z \<Rightarrow> (case sum_sizes fs bs of Inl e \<Rightarrow> Inl e | Inr t \<Rightarrow> Inr (z + t)))"

text \<open>The \<open>try\<close> block of \<open>convert_to_chd\<close>: the run of the external converter.\<close>

definition run_chdman :: "env \<Rightarrow> chd_mode \<Rightarrow> path \<Rightarrow> path \<Rightarrow> nat \<Rightarrow> app \<Rightarrow> bool \<times> app" where
  "run_chdman E mode p chd_path original_size s =
     (let s1 = say (LogConverting mode (name p) (name chd_path)) s;
          (result, fs') = chdman E mode p chd_path (disk s1);
          s2 = s1\<lparr>disk := fs', calls := calls s1 @ [(mode, p, chd_path)]\<rparr>
      in case result of
           Exited returncode stderr \<Rightarrow>
             if returncode = 0 \<and> fexists (disk s2) chd_path then
               (case stat_size (disk s2) chd_path of
                  Inl e \<Rightarrow> (False, say LogException s2)
                | Inr chd_size \<Rightarrow>
                    (True, say (LogSuccess original_size chd_size)
                       (s2\<lparr>total_original_size := total_original_size s2 + original_size,
                           total_chd_size := total_chd_size s2 + chd_size\<rparr>)))
             else (False, say (LogConversionFailed stderr) s2)
         | TimedOut \<Rightarrow> (False, say LogTimeout s2)
         | Crashed \<Rightarrow> (False, say LogException s2))"

definition convert_to_chd :: "env \<Rightarrow> path \<Rightarrow> app \<Rightarrow> (exn + bool) \<times> app" where
  "convert_to_chd E p s =
     (case with_suffix p ''.chd'' of
        Inl e \<Rightarrow> (Inl e, s)
      | Inr chd_path \<Rightarrow>
          if fexists (disk s) chd_path then (Inr True, say (LogChdExists (name chd_path)) s)
          else if map ascii_lower (suffix_of p) = ''.cue'' then
            (let (bin_files, s1) = parse_cue_file p s
             in case sum_sizes (disk s1) bin_files of
                  Inl e \<Rightarrow> (Inl e, s1)
                | Inr bins_size \<Rightarrow>
                    (case stat_size (disk s1) p of
                       Inl e \<Rightarrow> (Inl e, s1)
                     | Inr cue_size \<Rightarrow>
                         (let (ok, s2) = run_chdman E createcd p chd_path (bins_size + cue_size) s1
                          in (Inr ok, s2))))
          else if map ascii_lower (suffix_of p) = ''.iso'' then
            (case stat_size (disk s) p of
               Inl e \<Rightarrow> (Inl e, s)
             | Inr original_size \<Rightarrow>
                 (let (ok, s2) = run_chdman E createdvd p chd_path original_size s
                  in (Inr ok, s2)))
          else (Inr False, say (LogUnsupportedType (name p)) s))"

section \<open>Postprocessing\<close>

text \<open>Both postprocessing functions catch every exception. A loop that is left by an
  exception keeps what it did before: the loops return the exception, if any, and the
  state they reached.\<close>

fun unlink_bins :: "path list \<Rightarrow> app \<Rightarrow> exn option \<times> app" where
  "unlink_bins [] s = (None, s)"
| "unlink_bins (bin_file # rest) s =
     (if fexists (disk s) bin_file then
        (case unlink bin_file (disk s) of
           Inl e \<Rightarrow> (Some e, s)
         | Inr fs' \<Rightarrow> unlink_bins rest (say (LogDeleted (name bin_file)) (s\<lparr>disk := fs'\<rparr>)))
      else unlink_bins rest s)"

definition delete_original_files :: "path \<Rightarrow> app \<Rightarrow> bool \<times> app" where
  "delete_original_files cue_path s =
     (let (bin_files, s1) = parse_cue_file cue_path s
      in case unlink_bins bin_files s1 of
           (Some e, s2) \<Rightarrow> (False, say LogDeleteError s2)
         | (None, s2) \<Rightarrow>
             if fexists (disk s2) cue_path then
               (case unlink cue_path (disk s2) of
                  Inl e \<Rightarrow> (False, say LogDeleteError s2)
                | Inr fs' \<Rightarrow> (True, say (LogDeleted (name cue_path)) (s2\<lparr>disk := fs'\<rparr>)))
             else (True, s2))"

text \<open>One original moved into the backup folder, under the first free name among
  \<open>name\<close>, \<open>stem_1suffix\<close>, \<open>stem_2suffix\<close>, ...\<close>

definition backup_destination :: "path \<Rightarrow> path \<Rightarrow> filesystem \<Rightarrow> path" where
  "backup_destination backup_dir f fs =
     unique_dest fs backup_dir (stem f @ ''_'') (suffix_of f) (joinpath backup_dir (name f)) 1"

definition backup_one :: "path \<Rightarrow> path \<Rightarrow> app \<Rightarrow> exn option \<times> app" where
  "backup_one backup_dir f s =
     (if fexists (disk s) f then
        (let dest = backup_destination backup_dir f (disk s)
         in case move_path f dest (disk s) of
              Inl e \<Rightarrow> (Some e, s)
            | Inr fs' \<Rightarrow> (None, say (LogMovedToBackup (name f)) (s\<lparr>disk := fs'\<rparr>)))
      else (None, s))"

fun backup_bins :: "path \<Rightarrow> path list \<Rightarrow> app \<Rightarrow> exn option \<times> app" where
  "backup_bins backup_dir [] s = (None, s)"
| "backup_bins backup_dir (bin_file # rest) s =
     (case backup_one backup_dir bin_file s of
        (Some e, s') \<Rightarrow> (Some e, s')
      | (None, s') \<Rightarrow> backup_bins backup_dir rest s')"

definition move_to_backup_folder :: "path \<Rightarrow> app \<Rightarrow> bool \<times> app" where
  "move_to_backup_folder cue_path s =
     (let backup_dir = joinpath (parent cue_path) ''original_backup''
      in case mkdir backup_dir (disk s) of
           Inl e \<Rightarrow> (False, say LogBackupError s)
         | Inr fs' \<Rightarrow>
             (let (bin_files, s1) = parse_cue_file cue_path (s\<lparr>disk := fs'\<rparr>)
              in case backup_bins backup_dir bin_files s1 of
                   (Some e, s2) \<Rightarrow> (False, say LogBackupError s2)
                 | (None, s2) \<Rightarrow>
                     (case backup_one backup_dir cue_path s2 of
                        (Some e, s3) \<Rightarrow> (False, say LogBackupError s3)
                      | (None, s3) \<Rightarrow> (True, s3))))"

section \<open>One job\<close>

text \<open>\<open>process_single_file\<close> at the time \<open>now\<close> of the clock: \<open>None\<close> when the run has
  been stopped, else the outcome of the conversion; an exception of the conversion
  leaves the function.\<close>

definition process_single_file ::
  "env \<Rightarrow> real \<Rightarrow> path \<Rightarrow> nat \<Rightarrow> nat \<Rightarrow> app \<Rightarrow> (exn + bool option) \<times> app" where
  "process_single_file E now cue_file file_num n_total s =
     (if \<not> is_converting s then (Inr None, s)
      else
        (let s1 = say (LogProcessing file_num n_total (name cue_file))
                    (s\<lparr>file_start_times := (cue_file, now) # file_start_times s\<rparr>);
             (success, s2) = convert_to_chd E cue_file s1
         in case success of
              Inl e \<Rightarrow> (Inl e, s2)
            | Inr True \<Rightarrow>
                if delete_originals s2 then (Inr (Some True), snd (delete_original_files cue_file s2))
                else if move_to_backup s2 then (Inr (Some True), snd (move_to_backup_folder cue_file s2))
                else (Inr (Some True), s2)
            | Inr False \<Rightarrow> (Inr (Some False), s2)))"

section \<open>Discovery\<close>

definition find_game_files :: "env \<Rightarrow> app \<Rightarrow> path \<Rightarrow> bool \<Rightarrow> path list" where
  "find_game_files E s directory recur =
     sorted_paths (casefold E)
       (if recur then
          (if process_ps1_cues s then rglob (casefold E) (disk s) directory ''.cue'' else []) @
          (if process_ps2_isos s then rglob (casefold E) (disk s) directory ''.iso'' else [])
        else
          (if process_ps1_cues s then glob (casefold E) (disk s) directory ''.cue'' else []) @
          (if process_ps2_isos s then glob (casefold E) (disk s) directory ''.iso'' else []))"

text \<open>\<open>COMPRESSED_EXTENSIONS\<close> is a set; the loop over it runs in some order, and the
  result is sorted afterwards.\<close>

definition COMPRESSED_EXTENSIONS :: "string list" where
  "COMPRESSED_EXTENSIONS = [''.zip'', ''.7z'', ''.rar'', ''.gz'', ''.tar'', ''.tar.gz'', ''.tgz'']"

definition find_compressed_files :: "env \<Rightarrow> filesystem \<Rightarrow> path \<Rightarrow> bool \<Rightarrow> path list" where
  "find_compressed_files E fs directory recur =
     sorted_paths (casefold E)
       (concat (map (\<lambda>ext. if recur then rglob (casefold E) fs directory ext
                            else glob (casefold E) fs directory ext)
                  COMPRESSED_EXTENSIONS))"


section \<open>Extraction\<close>

text \<open>\<open>name.replace(pat, '')\<close>.\<close>

function remove_all :: "string \<Rightarrow> string \<Rightarrow> string" where
  "remove_all pat [] = []"
| "remove_all pat (c # cs) =
     (if pat \<noteq> [] \<and> prefix pat (c # cs) then remove_all pat (drop (length pat) (c # cs))
      else c # remove_all pat cs)"
  by pat_completeness auto
termination
  by (relation "measure (\<lambda>(pat, s). length s)") auto

definition extract_error :: "string \<Rightarrow> exn \<Rightarrow> log_event" where
  "extract_error nm e =
     (if e = BadZipFile then LogBadZip nm
      else if e = TarError then LogTarError
      else if e = TimeoutExpired then LogExtractTimeout nm
      else LogExtractError)"

text \<open>The folder an archive is extracted to.\<close>

definition extraction_folder :: "path \<Rightarrow> path" where
  "extraction_folder archive_path =
     (if suffix ''.tar.gz'' (name archive_path) \<or> suffix ''.tgz'' (name archive_path)
      then joinpath (parent archive_path)
             (remove_all ''.tgz'' (remove_all ''.tar.gz'' (name archive_path)))
      else joinpath (parent archive_path) (stem archive_path))"

text \<open>The three branches of \<open>extract_archive\<close>: \<open>zipfile\<close>, \<open>tarfile\<close> and 7-Zip.\<close>

definition extract_zip :: "env \<Rightarrow> path \<Rightarrow> path \<Rightarrow> app \<Rightarrow> (bool \<times> path option) \<times> app" where
  "extract_zip E archive_path extract_folder s1 =
     (let s2 = say (LogExtractZip (name archive_path)) s1
      in case unzip E archive_path extract_folder (disk s2) of
           (Some e, fs2) \<Rightarrow>
             ((False, None), say (extract_error (name archive_path) e) (s2\<lparr>disk := fs2\<rparr>))
         | (None, fs2) \<Rightarrow>
             ((True, Some extract_folder),
              say (LogExtractedTo (name extract_folder)) (s2\<lparr>disk := fs2\<rparr>)))"

definition extract_tar ::
  "env \<Rightarrow> string \<Rightarrow> path \<Rightarrow> path \<Rightarrow> app \<Rightarrow> (bool \<times> path option) \<times> app" where
  "extract_tar E ext archive_path extract_folder s1 =
     (let s2 = say (LogExtractTar (name archive_path)) s1;
          mode = (if ext \<in> {''.gz'', ''.tgz''} \<or> suffix ''.tar.gz'' (name archive_path)
                  then ''r:gz'' else ''r'')
      in case untar E mode archive_path extract_folder (disk s2) of
           (Some e, fs2) \<Rightarrow>
             ((False, None), say (extract_error (name archive_path) e) (s2\<lparr>disk := fs2\<rparr>))
         | (None, fs2) \<Rightarrow>
             ((True, Some extract_folder),
              say (LogExtractedTo (name extract_folder)) (s2\<lparr>disk := fs2\<rparr>)))"

definition extract_7z ::
  "env \<Rightarrow> string \<Rightarrow> path \<Rightarrow> path \<Rightarrow> app \<Rightarrow> (bool \<times> path option) \<times> app" where
  "extract_7z E ext archive_path extract_folder s1 =
     (if seven_zip_path s1 = [] then ((False, None), say (LogNo7zip ext) s1)
      else
        (let s2 = say (LogExtract7z (name archive_path)) s1
         in case seven_zip E archive_path extract_folder (disk s2) of
              (Exited returncode stderr, fs2) \<Rightarrow>
                if returncode = 0 then
                  ((True, Some extract_folder),
                   say (LogExtractedTo (name extract_folder)) (s2\<lparr>disk := fs2\<rparr>))
                else ((False, None), say (Log7zFailed stderr) (s2\<lparr>disk := fs2\<rparr>))
            | (TimedOut, fs2) \<Rightarrow>
                ((False, None), say (LogExtractTimeout (name archive_path)) (s2\<lparr>disk := fs2\<rparr>))
            | (Crashed, fs2) \<Rightarrow>
                ((False, None), say LogExtractError (s2\<lparr>disk := fs2\<rparr>))))"

definition extract_archive :: "env \<Rightarrow> path \<Rightarrow> app \<Rightarrow> (bool \<times> path option) \<times> app" where
  "extract_archive E archive_path s0 =
     (let s = s0\<lparr>extract_calls := extract_calls s0 @ [archive_path]\<rparr>;
          extract_folder = extraction_folder archive_path
      in case mkdir extract_folder (disk s) of
           Inl e \<Rightarrow> ((False, None), say (extract_error (name archive_path) e) s)
         | Inr fs1 \<Rightarrow>
             (let s1 = s\<lparr>disk := fs1\<rparr>;
                  ext = map ascii_lower (suffix_of archive_path)
              in if ext = ''.zip'' then extract_zip E archive_path extract_folder s1
                 else if ext \<in> {''.tar'', ''.gz'', ''.tgz''}
                         \<or> suffix ''.tar.gz'' (name archive_path)
                 then extract_tar E ext archive_path extract_folder s1
                 else if ext \<in> {''.7z'', ''.rar''}
                 then extract_7z E ext archive_path extract_folder s1
                 else ((False, None), say (LogUnsupportedArchive ext) s1)))"

text \<open>The loop of \<open>extract_all_archives\<close> over the files found.\<close>

fun extract_each :: "env \<Rightarrow> path list \<Rightarrow> app \<Rightarrow> path list \<times> app" where
  "extract_each E [] s = ([], s)"
| "extract_each E (archive # rest) s =
     (case extract_archive E archive s of
        ((True, Some folder), s1) \<Rightarrow>
          (let s2 = (if delete_archives_after_extract s1 then
                       (case unlink archive (disk s1) of
                          Inl e \<Rightarrow> say LogArchiveNotDeleted s1
                        | Inr fs' \<Rightarrow> say (LogDeletedArchive (name archive)) (s1\<lparr>disk := fs'\<rparr>))
                     else s1);
               (folders, s3) = extract_each E rest s2
           in (folder # folders, s3))
      | (_, s1) \<Rightarrow> extract_each E rest s1)"

definition extract_all_archives :: "env \<Rightarrow> path \<Rightarrow> bool \<Rightarrow> app \<Rightarrow> path list \<times> app" where
  "extract_all_archives E directory recur s =
     (let compressed_files = find_compressed_files E (disk s) directory recur
      in if compressed_files = [] then ([], say LogNoCompressed s)
         else extract_each E compressed_files
                (say (LogFoundCompressed (map name compressed_files)) s))"

section \<open>The worker pool\<close>

text \<open>
  \<open>conversion_thread\<close> submits every job to a \<open>ThreadPoolExecutor\<close> and collects the
  results with \<open>as_completed\<close>, while the user may press the stop button. The model
  runs these three activities in the order a schedule gives:
  \<^item> \<open>Worker now\<close>: a worker of the pool takes the next job of the queue and runs
    \<open>process_single_file\<close>; the flag \<open>is_converting\<close> is read once, at the start of
    the job, so the job counts as one step;
  \<^item> \<open>Collect now\<close>: the loop \<open>for future in as_completed(futures)\<close> runs its body
    for the oldest finished job that it has not seen; with no such job it waits;
  \<^item> \<open>Stop\<close>: \<open>stop_conversion\<close>.
  The local variables of \<open>conversion_thread\<close> are the record \<open>pool\<close>: the jobs not yet
  started, the finished jobs not yet collected, the three counters, and whether the
  loop is still running.
\<close>

datatype event = Worker real | Collect real | Stop

record pool =
  queue :: "(path \<times> nat) list"
  finished :: "(path \<times> (exn + bool option)) list"
  successful :: nat
  failed :: nat
  completed :: nat
  collecting :: bool

definition stop_conversion :: "app \<Rightarrow> app" where
  "stop_conversion s = s\<lparr>is_converting := False\<rparr>"

definition worker_step :: "env \<Rightarrow> nat \<Rightarrow> real \<Rightarrow> pool \<times> app \<Rightarrow> pool \<times> app" where
  "worker_step E n_total now ps =
     (case ps of (p, s) \<Rightarrow>
        (case queue p of
           [] \<Rightarrow> (p, s)
         | (f, i) # q \<Rightarrow>
             (let (r, s') = process_single_file E now f i n_total s
              in (p\<lparr>queue := q, finished := finished p @ [(f, r)]\<rparr>, s'))))"

definition collect_step :: "real \<Rightarrow> pool \<times> app \<Rightarrow> pool \<times> app" where
  "collect_step now ps =
     (case ps of (p, s) \<Rightarrow>
        if \<not> collecting p then (p, s)
        else
          (case finished p of
             [] \<Rightarrow> (p, s)
           | (f, r) # rest \<Rightarrow>
               if \<not> is_converting s then
                 (p\<lparr>queue := [], collecting := False\<rparr>, say LogStopped s)
               else
                 (case r of
                    Inl e \<Rightarrow>
                      (p\<lparr>finished := rest, failed := failed p + 1\<rparr>,
                       say (LogJobException (name f)) s)
                  | Inr None \<Rightarrow> (p\<lparr>finished := rest\<rparr>, s)
                  | Inr (Some result) \<Rightarrow>
                      (let p1 = (if result then p\<lparr>successful := successful p + 1\<rparr>
                                 else p\<lparr>failed := failed p + 1\<rparr>);
                           p2 = p1\<lparr>finished := rest, completed := completed p1 + 1\<rparr>;
                           s1 = s\<lparr>completed_jobs := completed p2\<rparr>;
                           s2 = (case map_of (file_start_times s1) f of
                                   None \<Rightarrow> s1
                                 | Some started_at \<Rightarrow>
                                     if started_at \<noteq> 0
                                     then s1\<lparr>file_durations :=
                                               file_durations s1 @ [now - started_at]\<rparr>
                                     else s1)
                       in (p2, s2)))))"

fun exec_event :: "env \<Rightarrow> nat \<Rightarrow> event \<Rightarrow> pool \<times> app \<Rightarrow> pool \<times> app" where
  "exec_event E n_total (Worker now) ps = worker_step E n_total now ps"
| "exec_event E n_total (Collect now) ps = collect_step now ps"
| "exec_event E n_total Stop ps = (fst ps, stop_conversion (snd ps))"

fun run_pool :: "env \<Rightarrow> nat \<Rightarrow> event list \<Rightarrow> pool \<times> app \<Rightarrow> pool \<times> app" where
  "run_pool E n_total [] ps = ps"
| "run_pool E n_total (ev # evs) ps = run_pool E n_total evs (exec_event E n_total ev ps)"

text \<open>The pool right after \<open>executor.submit\<close> has been called for every file.\<close>

definition submit_all :: "path list \<Rightarrow> pool" where
  "submit_all game_files =
     \<lparr>queue = zip game_files [1 ..< Suc (length game_files)], finished = [],
      successful = 0, failed = 0, completed = 0, collecting = True\<rparr>"

definition conversion_complete :: "app \<Rightarrow> app" where
  "conversion_complete s = s\<lparr>metrics_running := False\<rparr>"

definition conversion_thread :: "env \<Rightarrow> event list \<Rightarrow> app \<Rightarrow> app" where
  "conversion_thread E sched s =
     (let s1 = (if extract_compressed s then
                  (let (extracted_folders, s') =
                         extract_all_archives E (source_dir s) (recursive s) (say LogExtractingAll s)
                   in if extracted_folders \<noteq> []
                      then say (LogExtractedCount (length extracted_folders)) s' else s')
                else s);
          game_files = find_game_files E s1 (source_dir s1) (recursive s1);
          n_total = length game_files;
          s2 = s1\<lparr>total_jobs := n_total, completed_jobs := 0\<rparr>
      in if n_total = 0 then
           conversion_complete ((say LogNoGameFiles s2)\<lparr>is_converting := False\<rparr>)
         else
           (let s3 = say (LogStarting (cpu_cores s2))
                       (s2\<lparr>total_original_size := 0, total_chd_size := 0\<rparr>);
                (p, s4) = run_pool E n_total sched (submit_all game_files, s3);
                s5 = say (LogComplete (successful p) (failed p) n_total) s4;
                s6 = (if total_original_size s5 > 0
                      then say (LogSavings (total_original_size s5) (total_chd_size s5)) s5
                      else s5)
            in conversion_complete (s6\<lparr>is_converting := False\<rparr>)))"

text \<open>\<open>start_conversion\<close>: \<open>response\<close> is the answer of the user to the deletion
  dialog, \<open>now\<close> the time of the clock, and \<open>sched\<close> the schedule under which the
  conversion thread it starts will run.\<close>

definition start_conversion :: "env \<Rightarrow> bool \<Rightarrow> real \<Rightarrow> event list \<Rightarrow> app \<Rightarrow> app" where
  "start_conversion E response now sched s =
     (if source_dir s = [] \<or> \<not> is_dir (disk s) (source_dir s) then
        s\<lparr>dialogs := dialogs s @ [WarnInvalidDirectory]\<rparr>
      else if delete_originals s \<and> move_to_backup s then
        s\<lparr>dialogs := dialogs s @ [WarnConflictingOptions]\<rparr>
      else if delete_originals s \<and> \<not> response then
        s\<lparr>dialogs := dialogs s @ [AskConfirmDeletion]\<rparr>
      else
        (let s1 = (if delete_originals s then s\<lparr>dialogs := dialogs s @ [AskConfirmDeletion]\<rparr>
                   else s);
             s2 = s1\<lparr>is_converting := True, metrics_running := True,
                     conversion_start_time := now,
                     file_start_times := [], file_durations := []\<rparr>;
             s3 = s2\<lparr>total_jobs := length (find_game_files E s2 (source_dir s2) (recursive s2)),
                     completed_jobs := 0\<rparr>
         in conversion_thread E sched s3))"

section \<open>Metrics\<close>

text \<open>The figures that \<open>update_metrics\<close> computes at one tick: the mean duration, the
  jobs remaining and the estimated time left, which may be absent. Python floats are
  modelled as real numbers.\<close>

record metrics =
  avg_time :: real
  remaining :: int
  overall_eta :: "real option"

definition update_metrics :: "app \<Rightarrow> metrics option" where
  "update_metrics s =
     (if \<not> metrics_running s then None
      else
        (let durations = file_durations s;
             avg = (if durations \<noteq> [] then sum_list durations / real (length durations) else 0);
             rem = max (int (total_jobs s) - int (completed_jobs s)) 0
         in Some \<lparr>avg_time = avg, remaining = rem,
                  overall_eta =
                    (if avg \<noteq> 0 then Some (avg * (real_of_int rem / real (max (cpu_cores s) 1)))
                     else None)\<rparr>))"

section \<open>Moving the converted files\<close>




text \<open>The body of the loop of \<open>execute_move\<close> for one file: the destination is the
  first free name among \<open>new_name\<close>, \<open>base (1).chd\<close>, \<open>base (2).chd\<close>, ...\<close>

definition new_chd_name :: "bool \<Rightarrow> path \<Rightarrow> string" where
  "new_chd_name remove_locale chd =
     (if remove_locale then clean_game_name (stem chd) @ ''.chd'' else name chd)"





section \<open>Example surroundings\<close>

text \<open>A converter that always succeeds and writes a one-byte output, decoders that
  succeed and write nothing, on a host that distinguishes the case of letters; and a
  freshly started application on a given file system.\<close>

definition example_env :: env where
  "example_env =
     \<lparr>casefold = id,
      chdman = (\<lambda>mode p chd_path fs. (Exited 0 [], fs @ [(chd_path, File [] 1)])),
      unzip = (\<lambda>archive folder fs. (None, fs)),
      untar = (\<lambda>mode archive folder fs. (None, fs)),
      seven_zip = (\<lambda>archive folder fs. (Exited 0 [], fs))\<rparr>"

definition example_app :: "filesystem \<Rightarrow> app" where
  "example_app fs =
     \<lparr>disk = fs, log = [], calls = [], extract_calls = [], dialogs = [],
      source_dir = [''roms''], recursive = True,
      process_ps1_cues = True, process_ps2_isos = True,
      extract_compressed = False, delete_archives_after_extract = False,
      delete_originals = False, move_to_backup = False,
      seven_zip_path = [], cpu_cores = 4, is_converting = True, metrics_running = True,
      total_original_size = 0, total_chd_size = 0, total_jobs = 0, completed_jobs = 0,
      conversion_start_time = 0, file_start_times = [], file_durations = []\<rparr>"

text \<open>A track list with three references, and a folder that holds it and two of the
  three files.\<close>

definition example_cue :: string where
  "example_cue =
     ''FILE '' @ [CHR 0x22] @ ''track1.bin'' @ [CHR 0x22] @ '' BINARY'' @ [CHR 0x0A] @
     ''  TRACK 01 MODE2/2352'' @ [CHR 0x0A] @
     ''FILE '' @ [CHR 0x22] @ ''track2.bin'' @ [CHR 0x22] @ '' BINARY'' @ [CHR 0x0A] @
     ''  TRACK 02 AUDIO'' @ [CHR 0x0A] @
     ''FILE '' @ [CHR 0x22] @ ''track3.bin'' @ [CHR 0x22] @ '' BINARY'' @ [CHR 0x0A] @
     ''  TRACK 03 AUDIO'' @ [CHR 0x0A]"

definition example_disk :: filesystem where
  "example_disk =
     [([''roms''], Directory 0),
      ([''roms'', ''game.cue''], File example_cue 200),
      ([''roms'', ''track1.bin''], File [] 1000),
      ([''roms'', ''track2.bin''], File [] 2000)]"

text \<open>Two files, a track list and an image, that have been converted before.\<close>

definition converted_disk :: filesystem where
  "converted_disk =
     [([''roms''], Directory 0),
      ([''roms'', ''a.cue''], File [] 10), ([''roms'', ''a.chd''], File [] 5),
      ([''roms'', ''b.iso''], File [] 700), ([''roms'', ''b.chd''], File [] 300)]"




section \<open>Notions of the statements and the proofs\<close>

text \<open>What postprocessing leaves alone: every field but the file system, the log and
  the start times.\<close>

definition control :: "app \<Rightarrow> app" where
  "control s = s\<lparr>disk := [], log := [], file_start_times := []\<rparr>"

text \<open>The output of a job exists.\<close>

definition chd_exists :: "filesystem \<Rightarrow> path \<Rightarrow> bool" where
  "chd_exists fs p = (case with_suffix p ''.chd'' of Inl e \<Rightarrow> False | Inr c \<Rightarrow> fexists fs c)"

text \<open>Every job of the schedule finds its output when a worker starts it.\<close>

fun outputs_exist :: "env \<Rightarrow> nat \<Rightarrow> event list \<Rightarrow> pool \<times> app \<Rightarrow> bool" where
  "outputs_exist E n [] ps = True"
| "outputs_exist E n (ev # evs) ps =
     ((case ev of
         Worker now \<Rightarrow>
           (case queue (fst ps) of [] \<Rightarrow> True | (f, i) # q \<Rightarrow> chd_exists (disk (snd ps)) f)
       | _ \<Rightarrow> True)
      \<and> outputs_exist E n evs (exec_event E n ev ps))"

text \<open>The invariant of such a run of \<open>k\<close> jobs: nothing failed, the converter was not
  run, every finished job succeeded, and no job is lost.\<close>

definition all_skipped :: "nat \<Rightarrow> (chd_mode \<times> path \<times> path) list \<Rightarrow> pool \<times> app \<Rightarrow> bool" where
  "all_skipped k c0 ps \<longleftrightarrow>
     is_converting (snd ps) \<and> collecting (fst ps) \<and> failed (fst ps) = 0 \<and> calls (snd ps) = c0
     \<and> list_all (\<lambda>fr. snd fr = Inr (Some True)) (finished (fst ps))
     \<and> successful (fst ps) + length (finished (fst ps)) + length (queue (fst ps)) = k"

text \<open>A text in which no group can be matched any more: after an opening character
  comes either nothing, or the closing character at once, or no closing character at
  all.\<close>

definition follow :: "char \<Rightarrow> string \<Rightarrow> bool" where
  "follow c xs \<longleftrightarrow> xs = [] \<or> hd xs = c \<or> c \<notin> set xs"

fun settled :: "char \<Rightarrow> char \<Rightarrow> string \<Rightarrow> bool" where
  "settled opn cls [] = True"
| "settled opn cls (x # xs) = ((x = opn \<longrightarrow> follow cls xs) \<and> settled opn cls xs)"

text \<open>A text in which every run of white space is one blank, and a text without
  white space at either end.\<close>

fun collapsed :: "string \<Rightarrow> bool" where
  "collapsed [] = True"
| "collapsed (x # xs) =
     ((is_space x \<longrightarrow> x = CHR '' '' \<and> (xs = [] \<or> \<not> is_space (hd xs))) \<and> collapsed xs)"

definition trimmed :: "string \<Rightarrow> bool" where
  "trimmed t \<longleftrightarrow> t = [] \<or> \<not> is_space (hd t) \<and> \<not> is_space (last t)"

text \<open>The shape of a disc tag: the literal, white space, digits, the closing
  parenthesis.\<close>

definition is_tag :: "string \<Rightarrow> bool" where
  "is_tag m \<longleftrightarrow>
     (\<exists>d sp ds. m = d @ sp @ ds @ '')'' \<and> map ascii_lower d = map ascii_lower ''(Disc''
        \<and> (\<forall>x \<in> set sp. is_space x) \<and> ds \<noteq> [] \<and> (\<forall>x \<in> set ds. is_digit x))"

section \<open>Facts about the log\<close>

lemma say_fields [simp]:
  "disk (say e s) = disk s"
  "calls (say e s) = calls s"
  "extract_calls (say e s) = extract_calls s"
  "log (say e s) = log s @ [e]"
  "is_converting (say e s) = is_converting s"
  "delete_originals (say e s) = delete_originals s"
  "move_to_backup (say e s) = move_to_backup s"
  "delete_archives_after_extract (say e s) = delete_archives_after_extract s"
  "file_start_times (say e s) = file_start_times s"
  "total_original_size (say e s) = total_original_size s"
  by (simp_all add: say_def)

section \<open>Conflicting postprocessing options\<close>

text \<open>
  Claim C5. When the delete-originals option and the move-to-backup option are both
  enabled, \<open>start_conversion\<close> only shows a warning: the state is the one before with
  one more dialog, so no archive is extracted, no scan is logged, the external converter
  is not run, the file system is untouched and the run is not marked as converting.
\<close>

theorem start_conversion_conflict_refused:
  assumes "delete_originals s" and "move_to_backup s"
  shows "start_conversion E response now sched s =
           s\<lparr>dialogs := dialogs s @
                [if source_dir s = [] \<or> \<not> is_dir (disk s) (source_dir s)
                 then WarnInvalidDirectory else WarnConflictingOptions]\<rparr>
         \<and> disk (start_conversion E response now sched s) = disk s
         \<and> calls (start_conversion E response now sched s) = calls s
         \<and> extract_calls (start_conversion E response now sched s) = extract_calls s
         \<and> log (start_conversion E response now sched s) = log s
         \<and> is_converting (start_conversion E response now sched s) = is_converting s"
  using assms by (simp add: start_conversion_def)

theorem start_conversion_conflict_refused_witness:
  "delete_originals (example_app [([''roms''], Directory 0)]
       \<lparr>delete_originals := True, move_to_backup := True, is_converting := False\<rparr>)
   \<and> move_to_backup (example_app [([''roms''], Directory 0)]
       \<lparr>delete_originals := True, move_to_backup := True, is_converting := False\<rparr>)
   \<and> dialogs (start_conversion example_env True 0 [Worker 1, Collect 2]
        (example_app [([''roms''], Directory 0)]
           \<lparr>delete_originals := True, move_to_backup := True, is_converting := False\<rparr>))
       = [WarnConflictingOptions]
   \<and> calls (start_conversion example_env True 0 [Worker 1, Collect 2]
        (example_app [([''roms''], Directory 0)]
           \<lparr>delete_originals := True, move_to_backup := True, is_converting := False\<rparr>)) = []
   \<and> \<not> is_converting (start_conversion example_env True 0 [Worker 1, Collect 2]
        (example_app [([''roms''], Directory 0)]
           \<lparr>delete_originals := True, move_to_backup := True, is_converting := False\<rparr>))"
  using start_conversion_conflict_refused
    [of "example_app [([''roms''], Directory 0)]
           \<lparr>delete_originals := True, move_to_backup := True, is_converting := False\<rparr>"
        example_env True 0 "[Worker 1, Collect 2]"]
  by (simp add: example_app_def is_dir_def)

section \<open>Discovery: proofs\<close>

lemma count_list_sort_key: "count_list (sort_key f xs) x = count_list xs x"
  by (simp add: count_list_eq_length_filter filter_sort)

lemma count_list_ge1: "x \<in> set xs \<Longrightarrow> 1 \<le> count_list xs x"
  using count_list_0_iff [of xs x] by (cases "count_list xs x") auto

lemma name_child: "n \<noteq> anchor \<Longrightarrow> name (child d n) = n"
  by (simp add: name_def child_def)

lemma in_paths: "p \<in> set (paths fs) \<longleftrightarrow> fexists fs p"
  by (simp add: paths_def fexists_iff)

lemma child_in_glob:
  assumes "fexists fs (child d n)" and "suffix ext n" and "n \<noteq> anchor"
  shows "child d n \<in> set (glob cf fs d ext)" and "child d n \<in> set (rglob cf fs d ext)"
  using assms
  by (auto simp: glob_def rglob_def in_paths name_child name_matches_def map_mono_suffix)
     (auto simp: child_def strict_prefix_def)

lemma tar_gz_suffixes:
  assumes "suffix ''.tar.gz'' n"
  shows "suffix ''.gz'' n" and "n \<noteq> anchor"
proof -
  from assms obtain a where n: "n = a @ ''.tar.gz''" by (auto simp: suffix_def)
  show "suffix ''.gz'' n" unfolding n suffix_def by (rule exI [of _ "a @ ''.tar''"]) simp
  show "n \<noteq> anchor" unfolding n anchor_def by (cases a) auto
qed

lemma find_compressed_tar_gz:
  assumes "suffix ''.tar.gz'' n" and "fexists fs (child d n)"
  shows "2 \<le> count_list (find_compressed_files E fs d recur) (child d n)"
proof -
  note s = tar_gz_suffixes [OF assms(1)]
  have a: "1 \<le> count_list (glob (casefold E) fs d ''.gz'') (child d n)"
    and b: "1 \<le> count_list (glob (casefold E) fs d ''.tar.gz'') (child d n)"
    and c: "1 \<le> count_list (rglob (casefold E) fs d ''.gz'') (child d n)"
    and d: "1 \<le> count_list (rglob (casefold E) fs d ''.tar.gz'') (child d n)"
    by (rule count_list_ge1, rule child_in_glob [OF assms(2) s(1) s(2)],
        rule count_list_ge1, rule child_in_glob [OF assms(2) assms(1) s(2)],
        rule count_list_ge1, rule child_in_glob [OF assms(2) s(1) s(2)],
        rule count_list_ge1, rule child_in_glob [OF assms(2) assms(1) s(2)])
  show ?thesis
    using a b c d
    by (simp add: find_compressed_files_def sorted_paths_def count_list_sort_key
        COMPRESSED_EXTENSIONS_def)
qed

lemma extract_branch_calls:
  "extract_calls (snd (extract_zip E a f s)) = extract_calls s"
  "extract_calls (snd (extract_tar E ext a f s)) = extract_calls s"
  "extract_calls (snd (extract_7z E ext a f s)) = extract_calls s"
  by (simp_all add: extract_zip_def extract_tar_def extract_7z_def Let_def
      split: prod.split option.split proc.split)

lemma extract_archive_calls:
  "extract_calls (snd (extract_archive E a s)) = extract_calls s @ [a]"
  by (simp add: extract_archive_def Let_def extract_branch_calls split: sum.split)

lemma extract_each_calls:
  "extract_calls (snd (extract_each E as s)) = extract_calls s @ as"
proof (induction as arbitrary: s)
  case Nil
  show ?case by simp
next
  case (Cons a as)
  obtain ok folder s1 where r: "extract_archive E a s = ((ok, folder), s1)"
    by (metis surj_pair)
  have c: "extract_calls s1 = extract_calls s @ [a]"
    using extract_archive_calls [of E a s] r by simp
  have ih: "extract_calls (snd (extract_each E as t)) = extract_calls s @ a # as"
    if "extract_calls t = extract_calls s1" for t
    using Cons.IH [of t] that c by simp
  show ?case
    using r
    by (auto simp: say_def ih c split: prod.splits option.splits bool.splits sum.splits
             dest!: arg_cong [where f = snd])
qed

lemma extract_all_calls:
  "extract_calls (snd (extract_all_archives E d recur s)) =
     extract_calls s @ find_compressed_files E (disk s) d recur"
  by (simp add: extract_all_archives_def Let_def extract_each_calls say_def)

text \<open>
  Claim C10. A file of the directory whose name ends in \<open>.tar.gz\<close> matches the pattern
  of \<open>.gz\<close> and the pattern of \<open>.tar.gz\<close>, so \<open>find_compressed_files\<close> returns its path at
  least twice, and \<open>extract_all_archives\<close> calls \<open>extract_archive\<close> on it at least
  twice in one run.
\<close>

theorem tar_gz_found_and_extracted_twice:
  assumes "suffix ''.tar.gz'' n" and "fexists (disk s) (child d n)"
  shows "2 \<le> count_list (find_compressed_files E (disk s) d recur) (child d n)
       \<and> 2 \<le> count_list (extract_calls (snd (extract_all_archives E d recur s))) (child d n)"
proof -
  have a: "2 \<le> count_list (find_compressed_files E (disk s) d recur) (child d n)"
    using assms by (rule find_compressed_tar_gz)
  then have "2 \<le> count_list (extract_calls (snd (extract_all_archives E d recur s))) (child d n)"
    by (simp add: extract_all_calls)
  with a show ?thesis by simp
qed

theorem tar_gz_found_and_extracted_twice_witness:
  "suffix ''.tar.gz'' ''game.tar.gz''
   \<and> fexists (disk (example_app [([''roms''], Directory 0), ([''roms'', ''game.tar.gz''], File [] 9)]))
       (child [''roms''] ''game.tar.gz'')
   \<and> find_compressed_files example_env
        (disk (example_app [([''roms''], Directory 0), ([''roms'', ''game.tar.gz''], File [] 9)]))
        [''roms''] True = [[''roms'', ''game.tar.gz''], [''roms'', ''game.tar.gz'']]
   \<and> 2 \<le> count_list (extract_calls (snd (extract_all_archives example_env [''roms''] True
        (example_app [([''roms''], Directory 0), ([''roms'', ''game.tar.gz''], File [] 9)]))))
        (child [''roms''] ''game.tar.gz'')"
proof -
  have h1: "suffix ''.tar.gz'' ''game.tar.gz''"
    by (simp add: suffix_to_prefix)
  have h2: "fexists (disk (example_app [([''roms''], Directory 0), ([''roms'', ''game.tar.gz''], File [] 9)]))
       (child [''roms''] ''game.tar.gz'')"
    by (simp add: example_app_def fexists_def child_def)
  have v: "find_compressed_files example_env
        (disk (example_app [([''roms''], Directory 0), ([''roms'', ''game.tar.gz''], File [] 9)]))
        [''roms''] True = [[''roms'', ''game.tar.gz''], [''roms'', ''game.tar.gz'']]"
    by (simp add: find_compressed_files_def example_app_def example_env_def sorted_paths_def
        COMPRESSED_EXTENSIONS_def rglob_def paths_def name_matches_def name_def anchor_def
        suffix_to_prefix)
  from tar_gz_found_and_extracted_twice [OF h1 h2, of example_env True] h1 h2 v
  show ?thesis by simp
qed

text \<open>
  Claim C8. For every directory, recursive flag and choice of enabled kinds,
  \<open>find_game_files\<close> returns the entries beneath the directory (directly in it when the
  scan is not recursive) whose name matches an enabled kind, sorted by path; with no
  kind enabled the result is the empty list.
\<close>

theorem find_game_files_sorted:
  "sorted (map (map (map (casefold E))) (find_game_files E s d recur))
   \<and> set (find_game_files E s d recur) =
       {p. fexists (disk s) p \<and> strict_prefix d p \<and> (recur \<or> butlast p = d)
           \<and> (process_ps1_cues s \<and> name_matches (casefold E) ''.cue'' (name p)
              \<or> process_ps2_isos s \<and> name_matches (casefold E) ''.iso'' (name p))}
   \<and> find_game_files E (s\<lparr>process_ps1_cues := False, process_ps2_isos := False\<rparr>) d recur = []"
proof -
  have a: "sorted (map (map (map (casefold E))) (find_game_files E s d recur))"
    by (simp add: find_game_files_def sorted_paths_def sorted_sort_key)
  have b: "set (find_game_files E s d recur) =
       {p. fexists (disk s) p \<and> strict_prefix d p \<and> (recur \<or> butlast p = d)
           \<and> (process_ps1_cues s \<and> name_matches (casefold E) ''.cue'' (name p)
              \<or> process_ps2_isos s \<and> name_matches (casefold E) ''.iso'' (name p))}"
    by (auto simp: find_game_files_def sorted_paths_def glob_def rglob_def in_paths)
  have c: "find_game_files E (s\<lparr>process_ps1_cues := False, process_ps2_isos := False\<rparr>) d recur = []"
    by (simp add: find_game_files_def sorted_paths_def)
  from a b c show ?thesis by simp
qed

section \<open>The estimated time left\<close>

text \<open>
  Claim C9, as the code has it. At a tick with recorded durations whose mean is not
  zero, on a host with at least one processing unit, the estimated time left is the
  mean duration times the jobs remaining divided by the number of processing units,
  where the jobs remaining are the total minus the completed ones, not below zero.
  With no recorded duration, or a mean of zero, there is no estimate.
\<close>

theorem eta_formula:
  "(metrics_running s \<and> file_durations s \<noteq> [] \<and> sum_list (file_durations s) \<noteq> 0
      \<and> 1 \<le> cpu_cores s \<longrightarrow>
      update_metrics s =
        Some \<lparr>avg_time = sum_list (file_durations s) / real (length (file_durations s)),
              remaining = max (int (total_jobs s) - int (completed_jobs s)) 0,
              overall_eta =
                Some (sum_list (file_durations s) / real (length (file_durations s))
                      * (real_of_int (max (int (total_jobs s) - int (completed_jobs s)) 0)
                         / real (cpu_cores s)))\<rparr>)
   \<and> (metrics_running s \<and> (file_durations s = [] \<or> sum_list (file_durations s) = 0) \<longrightarrow>
      map_option overall_eta (update_metrics s) = Some None)"
  by (auto simp: update_metrics_def Let_def max_def)

theorem eta_formula_witness:
  "metrics_running (example_app [] \<lparr>file_durations := [2, 4], total_jobs := 10, completed_jobs := 2\<rparr>)
   \<and> file_durations (example_app [] \<lparr>file_durations := [2, 4], total_jobs := 10, completed_jobs := 2\<rparr>) \<noteq> []
   \<and> sum_list (file_durations (example_app [] \<lparr>file_durations := [2, 4], total_jobs := 10, completed_jobs := 2\<rparr>)) \<noteq> 0
   \<and> 1 \<le> cpu_cores (example_app [] \<lparr>file_durations := [2, 4], total_jobs := 10, completed_jobs := 2\<rparr>)
   \<and> update_metrics (example_app [] \<lparr>file_durations := [2, 4], total_jobs := 10, completed_jobs := 2\<rparr>)
       = Some \<lparr>avg_time = 3, remaining = 8, overall_eta = Some 6\<rparr>
   \<and> metrics_running (example_app [] \<lparr>file_durations := []\<rparr>)
   \<and> file_durations (example_app [] \<lparr>file_durations := []\<rparr>) = []
   \<and> map_option overall_eta (update_metrics (example_app [] \<lparr>file_durations := []\<rparr>)) = Some None"
  using eta_formula [of "example_app [] \<lparr>file_durations := [2, 4], total_jobs := 10, completed_jobs := 2\<rparr>"]
    eta_formula [of "example_app [] \<lparr>file_durations := []\<rparr>"]
  by (simp add: example_app_def)

text \<open>
  The claim as stated fails when every recorded duration is zero (a job that took less
  than one tick of the clock): one job of two is completed, on four processing units,
  and the estimate is absent, not \<open>0 * (1 / 4)\<close>.
\<close>

theorem eta_absent_for_zero_mean:
  "completed_jobs (example_app [] \<lparr>file_durations := [0], total_jobs := 2, completed_jobs := 1\<rparr>) = 1
   \<and> file_durations (example_app [] \<lparr>file_durations := [0], total_jobs := 2, completed_jobs := 1\<rparr>) = [0]
   \<and> update_metrics (example_app [] \<lparr>file_durations := [0], total_jobs := 2, completed_jobs := 1\<rparr>)
       = Some \<lparr>avg_time = 0, remaining = 1, overall_eta = None\<rparr>
   \<and> update_metrics (example_app [] \<lparr>file_durations := [0], total_jobs := 2, completed_jobs := 1\<rparr>)
       \<noteq> Some \<lparr>avg_time = 0, remaining = 1, overall_eta = Some (0 * (1 / 4))\<rparr>"
  by (simp add: update_metrics_def example_app_def)

section \<open>The sidecar resolver: proofs\<close>

lemma resolve_bins_eq:
  "resolve_bins d ms s =
     (filter (fexists (disk s)) (map (joinpath d) ms),
      s\<lparr>log := log s @ map LogMissingBin (filter (\<lambda>m. \<not> fexists (disk s) (joinpath d m)) ms)\<rparr>)"
proof (induction ms arbitrary: s)
  case Nil
  show ?case by simp
next
  case (Cons m ms)
  show ?case by (simp add: Cons.IH Let_def say_def)
qed












section \<open>One job: proofs\<close>

lemma control_simps [simp]:
  "control (say e s) = control s"
  "control (s\<lparr>disk := d\<rparr>) = control s"
  "control (s\<lparr>log := l\<rparr>) = control s"
  "control (s\<lparr>file_start_times := ft\<rparr>) = control s"
  by (simp_all add: control_def say_def)

lemma control_fields:
  assumes "control t = control s"
  shows "calls t = calls s" and "is_converting t = is_converting s"
    and "delete_originals t = delete_originals s" and "move_to_backup t = move_to_backup s"
    and "extract_calls t = extract_calls s"
    and "total_original_size t = total_original_size s"
proof -
  have "calls (control t) = calls (control s)" "is_converting (control t) = is_converting (control s)"
    "delete_originals (control t) = delete_originals (control s)"
    "move_to_backup (control t) = move_to_backup (control s)"
    "extract_calls (control t) = extract_calls (control s)"
    "total_original_size (control t) = total_original_size (control s)"
    using assms by simp_all
  then show "calls t = calls s" and "is_converting t = is_converting s"
    and "delete_originals t = delete_originals s" and "move_to_backup t = move_to_backup s"
    and "extract_calls t = extract_calls s"
    and "total_original_size t = total_original_size s"
    by (simp_all add: control_def)
qed

lemma control_parse: "control (snd (parse_cue_file p s)) = control s"
  by (simp add: parse_cue_file_def resolve_bins_eq split: sum.split)

lemma control_unlink_bins: "control (snd (unlink_bins bs s)) = control s"
  by (induction bs arbitrary: s) (simp_all split: sum.split)

lemma control_delete: "control (snd (delete_original_files p s)) = control s"
  by (simp add: delete_original_files_def split_beta control_parse control_unlink_bins
      split: option.split sum.split)

lemma control_backup_one: "control (snd (backup_one d f s)) = control s"
  by (simp add: backup_one_def Let_def split: sum.split)

lemma control_backup_bins: "control (snd (backup_bins d bs s)) = control s"
proof (induction bs arbitrary: s)
  case Nil
  show ?case by simp
next
  case (Cons b bs)
  show ?case
    using Cons.IH [of "snd (backup_one d b s)"] control_backup_one [of d b s]
    by (cases "backup_one d b s") (auto split: option.split)
qed

lemma control_move: "control (snd (move_to_backup_folder p s)) = control s"
proof (cases "mkdir (joinpath (parent p) ''original_backup'') (disk s)")
  case (Inl e)
  then show ?thesis by (simp add: move_to_backup_folder_def)
next
  case (Inr fs')
  let ?bd = "joinpath (parent p) ''original_backup''"
  let ?s1 = "snd (parse_cue_file p (s\<lparr>disk := fs'\<rparr>))"
  let ?s2 = "snd (backup_bins ?bd (fst (parse_cue_file p (s\<lparr>disk := fs'\<rparr>))) ?s1)"
  let ?s3 = "snd (backup_one ?bd p ?s2)"
  have a: "control ?s1 = control s" using control_parse [of p "s\<lparr>disk := fs'\<rparr>"] by simp
  have b: "control ?s2 = control s" using a by (simp add: control_backup_bins)
  have c: "control ?s3 = control s" using b by (simp add: control_backup_one)
  show ?thesis
    using Inr a b c
    by (simp add: move_to_backup_folder_def split_beta Let_def split: option.split)
qed

lemma convert_skip:
  assumes "with_suffix p ''.chd'' = Inr c" and "fexists (disk s) c"
  shows "convert_to_chd E p s = (Inr True, say (LogChdExists (name c)) s)"
  using assms by (simp add: convert_to_chd_def)

lemma process_stopped:
  "\<not> is_converting s \<Longrightarrow> process_single_file E now f i n s = (Inr None, s)"
  by (simp add: process_single_file_def)

lemma skipped_job:
  assumes "is_converting s" and "chd_exists (disk s) p"
  shows "fst (process_single_file E now p i n s) = Inr (Some True)"
    and "control (snd (process_single_file E now p i n s)) = control s"
proof -
  from assms(2) obtain c where c: "with_suffix p ''.chd'' = Inr c" and e: "fexists (disk s) c"
    by (auto simp: chd_exists_def split: sum.splits)
  let ?s1 = "say (LogProcessing i n (name p)) (s\<lparr>file_start_times := (p, now) # file_start_times s\<rparr>)"
  have cv: "convert_to_chd E p ?s1 = (Inr True, say (LogChdExists (name c)) ?s1)"
    using c e by (intro convert_skip) simp_all
  show "fst (process_single_file E now p i n s) = Inr (Some True)"
    using assms(1) cv by (simp add: process_single_file_def Let_def)
  show "control (snd (process_single_file E now p i n s)) = control s"
    using assms(1) cv by (simp add: process_single_file_def Let_def control_delete control_move)
qed

section \<open>Files that are converted already\<close>

lemma all_skipped_worker:
  assumes "all_skipped k c0 (p, s)"
    and "case queue p of [] \<Rightarrow> True | (f, i) # q \<Rightarrow> chd_exists (disk s) f"
  shows "all_skipped k c0 (worker_step E n now (p, s))"
proof (cases "queue p")
  case Nil
  then show ?thesis using assms(1) by (simp add: worker_step_def)
next
  case (Cons fi q)
  obtain f i where fi: "fi = (f, i)" by (cases fi)
  have ic: "is_converting s" using assms(1) by (simp add: all_skipped_def)
  have ex: "chd_exists (disk s) f" using assms(2) Cons fi by simp
  note sk = skipped_job [OF ic ex, of E now i n]
  note cf = control_fields [OF sk(2)]
  show ?thesis
    using assms(1) Cons fi sk(1) cf(1,2)
    by (simp add: worker_step_def all_skipped_def split_beta)
qed

lemma all_skipped_collect:
  assumes "all_skipped k c0 (p, s)"
  shows "all_skipped k c0 (collect_step now (p, s))"
proof (cases "finished p")
  case Nil
  then show ?thesis using assms by (simp add: collect_step_def)
next
  case (Cons fr rest)
  obtain f r where fr: "fr = (f, r)" by (cases fr)
  have r: "r = Inr (Some True)" using assms Cons fr by (simp add: all_skipped_def)
  show ?thesis
    using assms Cons fr r
    by (simp add: collect_step_def all_skipped_def Let_def split: option.split)
qed

lemma all_skipped_run:
  assumes "all_skipped k c0 ps" and "Stop \<notin> set sched" and "outputs_exist E n sched ps"
  shows "all_skipped k c0 (run_pool E n sched ps)"
  using assms
proof (induction sched arbitrary: ps)
  case Nil
  then show ?case by simp
next
  case (Cons ev evs)
  obtain p s where ps: "ps = (p, s)" by (cases ps)
  have "all_skipped k c0 (exec_event E n ev ps)"
  proof (cases ev)
    case (Worker now)
    have "case queue p of [] \<Rightarrow> True | (f, i) # q \<Rightarrow> chd_exists (disk s) f"
      using Cons.prems(3) ps Worker by (auto split: list.splits)
    then show ?thesis
      using Cons.prems(1) ps Worker by (simp add: all_skipped_worker)
  next
    case (Collect now)
    then show ?thesis using Cons.prems(1) ps by (simp add: all_skipped_collect)
  next
    case Stop
    then show ?thesis using Cons.prems(2) by simp
  qed
  then show ?case using Cons by simp
qed

lemma length_submit_all: "length (queue (submit_all jobs)) = length jobs"
proof -
  have "length (zip jobs [1 ..< Suc (length jobs)]) = length jobs"
    by (simp only: length_zip length_upt diff_Suc_1 min.idem)
  then show ?thesis by (simp add: submit_all_def)
qed

lemma all_skipped_submit:
  "is_converting s \<Longrightarrow> all_skipped (length jobs) (calls s) (submit_all jobs, s)"
  using length_submit_all [of jobs] by (simp add: all_skipped_def) (simp add: submit_all_def)

text \<open>
  Claim C3. A job whose output path (the path of the descriptor with the extension
  replaced by \<open>.chd\<close>) exists when it is converted succeeds at once: \<open>convert_to_chd\<close>
  returns \<open>True\<close> and neither runs the external converter nor touches the file system,
  and \<open>process_single_file\<close> returns success. Hence in a run of \<open>K\<close> jobs that is not
  stopped and in which every job finds its output when it starts, the converter is
  never run, no job fails, and the jobs collected as succeeded, those finished and
  waiting to be collected (all succeeded) and those not yet started are \<open>K\<close> together:
  once every job is collected, \<open>K\<close> have succeeded.
\<close>

theorem already_converted_jobs_succeed:
  "(chd_exists (disk s) p \<longrightarrow>
      fst (convert_to_chd E p s) = Inr True
      \<and> calls (snd (convert_to_chd E p s)) = calls s
      \<and> disk (snd (convert_to_chd E p s)) = disk s)
   \<and> (is_converting s \<and> chd_exists (disk s) p \<longrightarrow>
      fst (process_single_file E now p i n s) = Inr (Some True)
      \<and> calls (snd (process_single_file E now p i n s)) = calls s)
   \<and> (is_converting s \<and> Stop \<notin> set sched
        \<and> outputs_exist E (length jobs) sched (submit_all jobs, s) \<longrightarrow>
      calls (snd (run_pool E (length jobs) sched (submit_all jobs, s))) = calls s
      \<and> failed (fst (run_pool E (length jobs) sched (submit_all jobs, s))) = 0
      \<and> list_all (\<lambda>fr. snd fr = Inr (Some True))
           (finished (fst (run_pool E (length jobs) sched (submit_all jobs, s))))
      \<and> successful (fst (run_pool E (length jobs) sched (submit_all jobs, s)))
          + length (finished (fst (run_pool E (length jobs) sched (submit_all jobs, s))))
          + length (queue (fst (run_pool E (length jobs) sched (submit_all jobs, s))))
          = length jobs)"
proof -
  have a: "fst (convert_to_chd E p s) = Inr True
      \<and> calls (snd (convert_to_chd E p s)) = calls s
      \<and> disk (snd (convert_to_chd E p s)) = disk s" if "chd_exists (disk s) p"
  proof -
    from that obtain c where "with_suffix p ''.chd'' = Inr c" and "fexists (disk s) c"
      by (auto simp: chd_exists_def split: sum.splits)
    then show ?thesis by (simp add: convert_skip)
  qed
  have b: "fst (process_single_file E now p i n s) = Inr (Some True)
      \<and> calls (snd (process_single_file E now p i n s)) = calls s"
    if "is_converting s" and "chd_exists (disk s) p"
    using skipped_job(1) [OF that] control_fields(1) [OF skipped_job(2) [OF that]] by simp
  have c: "all_skipped (length jobs) (calls s) (run_pool E (length jobs) sched (submit_all jobs, s))"
    if "is_converting s" and "Stop \<notin> set sched"
      and "outputs_exist E (length jobs) sched (submit_all jobs, s)"
    using all_skipped_run [OF all_skipped_submit [OF that(1)] that(2,3)] .
  show ?thesis
    using a b c by (simp add: all_skipped_def)
qed

lemma converted_run_outputs:
  "outputs_exist example_env (length [[''roms'', ''a.cue''], [''roms'', ''b.iso'']])
     [Worker 1, Worker 2, Collect 3, Collect 4]
     (submit_all [[''roms'', ''a.cue''], [''roms'', ''b.iso'']],
      example_app converted_disk \<lparr>move_to_backup := True\<rparr>)"
  by code_simp

lemma converted_run_pool:
  "queue (fst (run_pool example_env (length [[''roms'', ''a.cue''], [''roms'', ''b.iso'']])
     [Worker 1, Worker 2, Collect 3, Collect 4]
     (submit_all [[''roms'', ''a.cue''], [''roms'', ''b.iso'']],
      example_app converted_disk \<lparr>move_to_backup := True\<rparr>))) = []"
  "finished (fst (run_pool example_env (length [[''roms'', ''a.cue''], [''roms'', ''b.iso'']])
     [Worker 1, Worker 2, Collect 3, Collect 4]
     (submit_all [[''roms'', ''a.cue''], [''roms'', ''b.iso'']],
      example_app converted_disk \<lparr>move_to_backup := True\<rparr>))) = []"
  by code_simp+

theorem already_converted_jobs_succeed_witness:
  "chd_exists (disk (example_app converted_disk \<lparr>move_to_backup := True\<rparr>)) [''roms'', ''a.cue'']
   \<and> is_converting (example_app converted_disk \<lparr>move_to_backup := True\<rparr>)
   \<and> Stop \<notin> set [Worker 1, Worker 2, Collect 3, Collect 4]
   \<and> outputs_exist example_env (length [[''roms'', ''a.cue''], [''roms'', ''b.iso'']])
        [Worker 1, Worker 2, Collect 3, Collect 4]
        (submit_all [[''roms'', ''a.cue''], [''roms'', ''b.iso'']],
         example_app converted_disk \<lparr>move_to_backup := True\<rparr>)
   \<and> fst (convert_to_chd example_env [''roms'', ''a.cue'']
        (example_app converted_disk \<lparr>move_to_backup := True\<rparr>)) = Inr True
   \<and> calls (snd (run_pool example_env (length [[''roms'', ''a.cue''], [''roms'', ''b.iso'']])
        [Worker 1, Worker 2, Collect 3, Collect 4]
        (submit_all [[''roms'', ''a.cue''], [''roms'', ''b.iso'']],
         example_app converted_disk \<lparr>move_to_backup := True\<rparr>))) = []
   \<and> failed (fst (run_pool example_env (length [[''roms'', ''a.cue''], [''roms'', ''b.iso'']])
        [Worker 1, Worker 2, Collect 3, Collect 4]
        (submit_all [[''roms'', ''a.cue''], [''roms'', ''b.iso'']],
         example_app converted_disk \<lparr>move_to_backup := True\<rparr>))) = 0
   \<and> successful (fst (run_pool example_env (length [[''roms'', ''a.cue''], [''roms'', ''b.iso'']])
        [Worker 1, Worker 2, Collect 3, Collect 4]
        (submit_all [[''roms'', ''a.cue''], [''roms'', ''b.iso'']],
         example_app converted_disk \<lparr>move_to_backup := True\<rparr>))) = 2"
proof -
  have h1: "chd_exists (disk (example_app converted_disk \<lparr>move_to_backup := True\<rparr>)) [''roms'', ''a.cue'']"
    by code_simp
  have h2: "is_converting (example_app converted_disk \<lparr>move_to_backup := True\<rparr>)"
    by (simp add: example_app_def)
  have h3: "Stop \<notin> set [Worker 1, Worker 2, Collect 3, Collect 4]"
    by simp
  have c0: "calls (example_app converted_disk \<lparr>move_to_backup := True\<rparr>) = []"
    by (simp add: example_app_def)
  from already_converted_jobs_succeed
         [of "example_app converted_disk \<lparr>move_to_backup := True\<rparr>" "[''roms'', ''a.cue'']"
             example_env 1 1 2 "[Worker 1, Worker 2, Collect 3, Collect 4]"
             "[[''roms'', ''a.cue''], [''roms'', ''b.iso'']]"]
       h1 h2 h3 c0 converted_run_outputs converted_run_pool
  show ?thesis by simp
qed

section \<open>Postprocessing after a skipped conversion\<close>










section \<open>Cancellation\<close>

lemma run_pool_append:
  "run_pool E n (a @ b) ps = run_pool E n b (run_pool E n a ps)"
  by (induction a arbitrary: ps) simp_all

lemma stopped_worker:
  assumes "\<not> is_converting s"
  shows "worker_step E n now (p, s) =
           (case queue p of [] \<Rightarrow> p
            | (f, i) # q \<Rightarrow> p\<lparr>queue := q, finished := finished p @ [(f, Inr None)]\<rparr>, s)"
  using assms by (simp add: worker_step_def process_stopped split: list.split)

lemma stopped_step:
  assumes "\<not> is_converting (snd ps)"
  shows "\<not> is_converting (snd (exec_event E n ev ps))
       \<and> successful (fst (exec_event E n ev ps)) = successful (fst ps)
       \<and> failed (fst (exec_event E n ev ps)) = failed (fst ps)
       \<and> completed (fst (exec_event E n ev ps)) = completed (fst ps)
       \<and> disk (snd (exec_event E n ev ps)) = disk (snd ps)
       \<and> calls (snd (exec_event E n ev ps)) = calls (snd ps)"
proof -
  obtain p s where ps: "ps = (p, s)" by (cases ps)
  show ?thesis
  proof (cases ev)
    case (Worker now)
    then show ?thesis
      using assms ps by (simp add: stopped_worker split: list.split)
  next
    case (Collect now)
    then show ?thesis
      using assms ps by (simp add: collect_step_def split: list.split)
  next
    case Stop
    then show ?thesis using assms by (simp add: stop_conversion_def)
  qed
qed

lemma stopped_run:
  assumes "\<not> is_converting (snd ps)"
  shows "successful (fst (run_pool E n evs ps)) = successful (fst ps)
       \<and> failed (fst (run_pool E n evs ps)) = failed (fst ps)
       \<and> completed (fst (run_pool E n evs ps)) = completed (fst ps)
       \<and> disk (snd (run_pool E n evs ps)) = disk (snd ps)
       \<and> calls (snd (run_pool E n evs ps)) = calls (snd ps)"
  using assms
proof (induction evs arbitrary: ps)
  case Nil
  show ?case by simp
next
  case (Cons ev evs)
  from stopped_step [OF Cons.prems, of E n ev] Cons.IH [of "exec_event E n ev ps"]
  show ?case by simp
qed

text \<open>
  Claim C6, as the code has it. Once the stop is requested nothing more is counted:
  after any schedule that goes on past the request, the numbers of succeeded, failed
  and completed jobs are those reached before it, and so are the file system and the
  runs of the external converter. The tally therefore holds the outcomes collected
  before the request; a job that a worker had finished but the collecting loop had
  not yet seen stays out of it. A job whose start comes after the request returns at
  once, changes nothing and is not counted as failed.
\<close>

theorem nothing_counted_after_stop:
  "successful (fst (run_pool E n (pre @ Stop # post) ps)) = successful (fst (run_pool E n pre ps))
   \<and> failed (fst (run_pool E n (pre @ Stop # post) ps)) = failed (fst (run_pool E n pre ps))
   \<and> completed (fst (run_pool E n (pre @ Stop # post) ps)) = completed (fst (run_pool E n pre ps))
   \<and> disk (snd (run_pool E n (pre @ Stop # post) ps)) = disk (snd (run_pool E n pre ps))
   \<and> calls (snd (run_pool E n (pre @ Stop # post) ps)) = calls (snd (run_pool E n pre ps))
   \<and> process_single_file E now f i n (stop_conversion s) = (Inr None, stop_conversion s)"
proof -
  let ?mid = "exec_event E n Stop (run_pool E n pre ps)"
  have m: "\<not> is_converting (snd ?mid)" by (simp add: stop_conversion_def)
  have e: "run_pool E n (pre @ Stop # post) ps = run_pool E n post ?mid"
    by (simp add: run_pool_append)
  have "process_single_file E now f i n (stop_conversion s) = (Inr None, stop_conversion s)"
    by (rule process_stopped) (simp add: stop_conversion_def)
  with stopped_run [OF m, of E n post] show ?thesis
    unfolding e by (simp add: stop_conversion_def)
qed

lemma stopped_run_example:
  "calls (snd (run_pool example_env 1 [Worker 1, Stop, Collect 2]
            (submit_all [[''roms'', ''game.cue'']], example_app example_disk)))
     = [(createcd, [''roms'', ''game.cue''], [''roms'', ''game.chd''])]"
  "finished (fst (run_pool example_env 1 [Worker 1, Stop, Collect 2]
            (submit_all [[''roms'', ''game.cue'']], example_app example_disk)))
     = [([''roms'', ''game.cue''], Inr (Some True))]"
  "successful (fst (run_pool example_env 1 [Worker 1, Stop, Collect 2]
            (submit_all [[''roms'', ''game.cue'']], example_app example_disk))) = 0"
  "failed (fst (run_pool example_env 1 [Worker 1, Stop, Collect 2]
            (submit_all [[''roms'', ''game.cue'']], example_app example_disk))) = 0"
  "log (conversion_thread example_env [Worker 1, Stop, Collect 2] (example_app example_disk))
     = [LogStarting 4, LogProcessing 1 1 ''game.cue'', LogMissingBin ''track3.bin'',
        LogConverting createcd ''game.cue'' ''game.chd'', LogSuccess 3200 1, LogStopped,
        LogComplete 0 0 1, LogSavings 3200 1]"
  by code_simp+

text \<open>
  The claim as stated fails: one job is submitted, a worker starts it and converts the
  file, then the stop is requested, then the collecting loop wakes up. The job was
  dispatched and succeeded, yet the run reports zero succeeded and zero failed of one.
\<close>

theorem dispatched_job_missing_from_tally:
  "calls (snd (run_pool example_env 1 [Worker 1, Stop, Collect 2]
            (submit_all [[''roms'', ''game.cue'']], example_app example_disk)))
     = [(createcd, [''roms'', ''game.cue''], [''roms'', ''game.chd''])]
   \<and> finished (fst (run_pool example_env 1 [Worker 1, Stop, Collect 2]
            (submit_all [[''roms'', ''game.cue'']], example_app example_disk)))
     = [([''roms'', ''game.cue''], Inr (Some True))]
   \<and> successful (fst (run_pool example_env 1 [Worker 1, Stop, Collect 2]
            (submit_all [[''roms'', ''game.cue'']], example_app example_disk))) = 0
   \<and> failed (fst (run_pool example_env 1 [Worker 1, Stop, Collect 2]
            (submit_all [[''roms'', ''game.cue'']], example_app example_disk))) = 0
   \<and> log (conversion_thread example_env [Worker 1, Stop, Collect 2] (example_app example_disk))
     = [LogStarting 4, LogProcessing 1 1 ''game.cue'', LogMissingBin ''track3.bin'',
        LogConverting createcd ''game.cue'' ''game.chd'', LogSuccess 3200 1, LogStopped,
        LogComplete 0 0 1, LogSavings 3200 1]"
  using stopped_run_example by simp

section \<open>Free destination names\<close>







section \<open>The name cleaning transform: proofs\<close>

lemma settled_append: "settled opn cls (a @ b) \<Longrightarrow> settled opn cls b"
  by (induction a) simp_all

lemma settled_dropWhile: "settled opn cls s \<Longrightarrow> settled opn cls (dropWhile P s)"
  using settled_append [of opn cls "takeWhile P s" "dropWhile P s"] by simp

lemma match_group_suffix: "match_group opn cls s = Some r \<Longrightarrow> \<exists>a. s = a @ r"
proof -
  assume a: "match_group opn cls s = Some r"
  then obtain c t where d: "dropWhile is_space s = c # t"
    by (auto simp: match_group_def split: list.splits)
  from a d obtain x where r: "dropWhile (\<lambda>x. x \<noteq> cls) t = x # r"
    by (auto simp: match_group_def Let_def split: list.splits if_splits)
  have "s = takeWhile is_space s @ c # t" using d by (metis takeWhile_dropWhile_id)
  also have "t = takeWhile (\<lambda>x. x \<noteq> cls) t @ x # r" using r by (metis takeWhile_dropWhile_id)
  finally have "s = (takeWhile is_space s @ c # takeWhile (\<lambda>x. x \<noteq> cls) t @ [x]) @ r" by simp
  then show ?thesis by blast
qed

lemma no_match:
  assumes "settled opn cls s" and "\<not> is_space opn"
  shows "match_group opn cls s = None"
proof (cases "dropWhile is_space s")
  case Nil
  show ?thesis unfolding match_group_def Nil by simp
next
  case (Cons x r)
  have st: "settled opn cls (x # r)" using settled_dropWhile [OF assms(1), of is_space] Cons by simp
  show ?thesis
  proof (cases "x = opn")
    case False
    then show ?thesis using Cons by (simp add: match_group_def)
  next
    case True
    then have "follow cls r" using st by simp
    then consider "r = []" | "r \<noteq> []" "hd r = cls" | "cls \<notin> set r"
      by (cases "r = []") (auto simp: follow_def)
    then show ?thesis
    proof cases
      case 1
      then show ?thesis using Cons True by (simp add: match_group_def)
    next
      case 2
      then have "takeWhile (\<lambda>x. x \<noteq> cls) r = []" by (cases r) auto
      then show ?thesis using Cons True by (simp add: match_group_def)
    next
      case 3
      then have dn: "dropWhile (\<lambda>x. x \<noteq> cls) r = []" by auto
      show ?thesis by (simp add: match_group_def Let_def dn Cons True)
    qed
  qed
qed

lemma sub_group_settled_id:
  assumes "settled opn cls s" and "\<not> is_space opn"
  shows "sub_group opn cls s = s"
  using assms(1)
proof (induction s)
  case Nil
  show ?case by simp
next
  case (Cons x xs)
  have "match_group opn cls (x # xs) = None" using Cons.prems assms(2) by (rule no_match)
  moreover have "settled opn cls xs" using Cons.prems by simp
  ultimately show ?case using Cons.IH by simp
qed

lemma set_sub_group: "set (sub_group opn cls s) \<subseteq> set s"
proof (induction opn cls s rule: sub_group.induct)
  case (1 opn cls)
  show ?case by simp
next
  case (2 opn cls c cs)
  show ?case
  proof (cases "match_group opn cls (c # cs)")
    case None
    with 2 show ?thesis by auto
  next
    case (Some r)
    then obtain a where "c # cs = a @ r" using match_group_suffix by blast
    then have "set r \<subseteq> set (c # cs)" by (metis set_append Un_upper2)
    with 2 Some show ?thesis by auto
  qed
qed

lemma follow_sub_group:
  assumes "follow c xs" and "c \<noteq> opn" and "\<not> is_space c"
  shows "follow c (sub_group opn cls xs)"
proof -
  consider "xs = []" | t where "xs = c # t" | "c \<notin> set xs"
    using assms(1) by (cases xs) (auto simp: follow_def)
  then show ?thesis
  proof cases
    case 1
    then show ?thesis by (simp add: follow_def)
  next
    case 2
    have "match_group opn cls (c # t) = None"
      using assms(2,3) by (simp add: match_group_def)
    then show ?thesis using 2 by (simp add: follow_def)
  next
    case 3
    then show ?thesis using set_sub_group [of opn cls xs] by (auto simp: follow_def)
  qed
qed

lemma settled_sub_group_same:
  assumes "\<not> is_space opn" and "\<not> is_space cls" and "opn \<noteq> cls"
  shows "settled opn cls (sub_group opn cls s)"
  using assms
proof (induction opn cls s rule: sub_group.induct)
  case (1 opn cls)
  show ?case by simp
next
  case (2 opn cls c cs)
  show ?case
  proof (cases "match_group opn cls (c # cs)")
    case (Some r)
    with 2 show ?thesis by simp
  next
    case None
    have ih: "settled opn cls (sub_group opn cls cs)" using 2 None by simp
    have "follow cls (sub_group opn cls cs)" if "c = opn"
    proof -
      have d: "dropWhile is_space (opn # cs) = opn # cs" using "2.prems"(1) by simp
      have "follow cls cs"
      proof (rule ccontr)
        assume nf: "\<not> follow cls cs"
        then obtain y ys where cs: "cs = y # ys" and y: "y \<noteq> cls" and m: "cls \<in> set cs"
          by (cases cs) (auto simp: follow_def)
        have b: "takeWhile (\<lambda>x. x \<noteq> cls) cs \<noteq> []" using cs y by simp
        from m have "dropWhile (\<lambda>x. x \<noteq> cls) cs \<noteq> []" by simp
        then obtain z zs where "dropWhile (\<lambda>x. x \<noteq> cls) cs = z # zs"
          by (cases "dropWhile (\<lambda>x. x \<noteq> cls) cs") auto
        then have "match_group opn cls (opn # cs) = Some zs"
          using b unfolding match_group_def d by (simp add: Let_def)
        with None that show False by simp
      qed
      then show ?thesis using "2.prems" by (intro follow_sub_group) auto
    qed
    with ih None show ?thesis by simp
  qed
qed

lemma settled_sub_group_other:
  assumes "settled opn cls s" and "cls \<noteq> opn'" and "\<not> is_space cls"
  shows "settled opn cls (sub_group opn' cls' s)"
  using assms
proof (induction opn' cls' s rule: sub_group.induct)
  case (1 opn' cls')
  show ?case by simp
next
  case (2 opn' cls' c cs)
  show ?case
  proof (cases "match_group opn' cls' (c # cs)")
    case (Some r)
    then obtain a where "c # cs = a @ r" using match_group_suffix by blast
    then have "settled opn cls r" using "2.prems"(1) settled_append by metis
    with 2 Some show ?thesis by simp
  next
    case None
    have "settled opn cls (sub_group opn' cls' cs)" using 2 None by simp
    moreover have "follow cls (sub_group opn' cls' cs)" if "c = opn"
      using that "2.prems" by (intro follow_sub_group) auto
    ultimately show ?thesis using None by simp
  qed
qed

lemma set_collapse_ws: "set (collapse_ws s) \<subseteq> insert (CHR '' '') (set s)"
proof (induction s rule: collapse_ws.induct)
  case 1
  show ?case by simp
next
  case (2 c cs)
  show ?case
  proof (cases "is_space c")
    case True
    have "set (dropWhile is_space cs) \<subseteq> set cs" by (auto dest: set_dropWhileD)
    with 2 True show ?thesis by auto
  next
    case False
    with 2 show ?thesis by auto
  qed
qed

lemma space_is_space: "is_space (CHR '' '')"
  by (simp add: is_space_def)

lemma follow_collapse_ws:
  assumes "follow c xs" and "\<not> is_space c"
  shows "follow c (collapse_ws xs)"
proof -
  consider "xs = []" | t where "xs = c # t" | "c \<notin> set xs"
    using assms(1) by (cases xs) (auto simp: follow_def)
  then show ?thesis
  proof cases
    case 1
    then show ?thesis by (simp add: follow_def)
  next
    case 2
    then show ?thesis using assms(2) by (simp add: follow_def)
  next
    case 3
    moreover have "c \<noteq> CHR '' ''" using assms(2) space_is_space by auto
    ultimately show ?thesis using set_collapse_ws [of xs] by (auto simp: follow_def)
  qed
qed

lemma settled_collapse_ws:
  assumes "settled opn cls s" and "\<not> is_space opn" and "\<not> is_space cls"
  shows "settled opn cls (collapse_ws s)"
  using assms
proof (induction s rule: collapse_ws.induct)
  case 1
  show ?case by simp
next
  case (2 c cs)
  show ?case
  proof (cases "is_space c")
    case True
    have "settled opn cls (dropWhile is_space cs)"
      using "2.prems"(1) by (simp add: settled_dropWhile)
    moreover have "CHR '' '' \<noteq> opn" using "2.prems"(2) space_is_space by auto
    ultimately show ?thesis using 2 True by simp
  next
    case False
    have "follow cls (collapse_ws cs)" if "c = opn"
      using that "2.prems" by (intro follow_collapse_ws) auto
    with 2 False show ?thesis by simp
  qed
qed

lemma strip_split:
  "\<exists>ws. dropWhile is_space s = strip s @ ws \<and> (\<forall>x \<in> set ws. is_space x)"
proof -
  let ?u = "dropWhile is_space s"
  have "rev ?u = takeWhile is_space (rev ?u) @ dropWhile is_space (rev ?u)" by simp
  then have "?u = rev (dropWhile is_space (rev ?u)) @ rev (takeWhile is_space (rev ?u))"
    by (metis rev_append rev_rev_ident)
  moreover have "\<forall>x \<in> set (rev (takeWhile is_space (rev ?u))). is_space x"
    by (auto dest: set_takeWhileD)
  ultimately show ?thesis unfolding strip_def by blast
qed

lemma settled_prefix:
  assumes "settled opn cls (a @ ws)" and "\<forall>x \<in> set ws. is_space x" and "\<not> is_space cls"
  shows "settled opn cls a"
  using assms(1)
proof (induction a)
  case Nil
  show ?case by simp
next
  case (Cons x a)
  have "follow cls a" if "x = opn"
  proof -
    have f: "follow cls (a @ ws)" using Cons.prems that by simp
    show ?thesis
    proof (cases a)
      case Nil
      then show ?thesis by (simp add: follow_def)
    next
      case (Cons y ys)
      then show ?thesis using f by (auto simp: follow_def)
    qed
  qed
  with Cons show ?case by simp
qed

lemma settled_strip:
  assumes "settled opn cls s" and "\<not> is_space cls"
  shows "settled opn cls (strip s)"
proof -
  obtain ws where w: "dropWhile is_space s = strip s @ ws" "\<forall>x \<in> set ws. is_space x"
    using strip_split by blast
  have "settled opn cls (strip s @ ws)"
    using settled_dropWhile [OF assms(1), of is_space] w(1) by simp
  then show ?thesis using w(2) assms(2) by (rule settled_prefix)
qed

lemma collapsed_collapse_ws: "collapsed (collapse_ws s)"
proof (induction s rule: collapse_ws.induct)
  case 1
  show ?case by simp
next
  case (2 c cs)
  show ?case
  proof (cases "is_space c")
    case False
    with 2 show ?thesis by simp
  next
    case True
    have "collapse_ws (dropWhile is_space cs) = [] \<or> \<not> is_space (hd (collapse_ws (dropWhile is_space cs)))"
    proof (cases "dropWhile is_space cs")
      case Nil
      then show ?thesis by (simp del: dropWhile_eq_Nil_conv)
    next
      case (Cons y ys)
      then have "\<not> is_space y" by (metis hd_dropWhile list.sel(1) list.distinct(1))
      then show ?thesis using Cons by simp
    qed
    with 2 True show ?thesis by simp
  qed
qed

lemma collapsed_id: "collapsed s \<Longrightarrow> collapse_ws s = s"
proof (induction s)
  case Nil
  show ?case by simp
next
  case (Cons x xs)
  show ?case
  proof (cases "is_space x")
    case False
    with Cons show ?thesis by simp
  next
    case True
    then have x: "x = CHR '' ''" and n: "xs = [] \<or> \<not> is_space (hd xs)" using Cons.prems by simp_all
    have "dropWhile is_space xs = xs" using n by (cases xs) auto
    with Cons True x show ?thesis by simp
  qed
qed

lemma collapsed_append: "collapsed (a @ b) \<Longrightarrow> collapsed a \<and> collapsed b"
proof (induction a)
  case Nil
  then show ?case by simp
next
  case (Cons x a)
  then show ?case by (cases a) auto
qed

lemma collapsed_dropWhile: "collapsed s \<Longrightarrow> collapsed (dropWhile P s)"
  using collapsed_append [of "takeWhile P s" "dropWhile P s"] by simp

lemma collapsed_strip: "collapsed s \<Longrightarrow> collapsed (strip s)"
proof -
  assume c: "collapsed s"
  obtain ws where w: "dropWhile is_space s = strip s @ ws"
    using strip_split by blast
  have "collapsed (strip s @ ws)" using collapsed_dropWhile [OF c, of is_space] w by simp
  then show ?thesis using collapsed_append by blast
qed

lemma trimmed_strip: "trimmed (strip s)"
proof (cases "strip s = []")
  case True
  then show ?thesis by (simp add: trimmed_def)
next
  case False
  let ?u = "dropWhile is_space s"
  let ?v = "dropWhile is_space (rev ?u)"
  have sv: "strip s = rev ?v" by (simp add: strip_def)
  have v: "?v \<noteq> []" using False sv by simp
  then have hv: "\<not> is_space (hd ?v)" by (rule hd_dropWhile)
  have l: "last (strip s) = hd ?v" using v sv by (simp add: last_rev)
  obtain ws where w: "?u = strip s @ ws" using strip_split by blast
  have u: "?u \<noteq> []" using w False by simp
  then have "\<not> is_space (hd ?u)" by (rule hd_dropWhile)
  moreover have "hd ?u = hd (strip s)" using w False by (metis hd_append2)
  ultimately show ?thesis using hv l by (simp add: trimmed_def)
qed

lemma trimmed_id: "trimmed t \<Longrightarrow> strip t = t"
proof (cases "t = []")
  case True
  then show ?thesis by (simp add: strip_def)
next
  case False
  assume "trimmed t"
  then have h: "\<not> is_space (hd t)" and l: "\<not> is_space (last t)"
    using False by (simp_all add: trimmed_def)
  have a: "dropWhile is_space t = t" using h False by (cases t) auto
  have "hd (rev t) = last t" using False by (simp add: hd_rev)
  moreover obtain y ys where r: "rev t = y # ys" using False by (cases "rev t") auto
  ultimately have "\<not> is_space y" using l by simp
  then have b: "dropWhile is_space (rev t) = rev t" unfolding r by simp
  show ?thesis by (simp add: strip_def a b)
qed

lemma bracket_chars:
  "\<not> is_space CHR ''(''" "\<not> is_space CHR '')''" "\<not> is_space CHR ''[''" "\<not> is_space CHR '']''"
  by (simp_all add: is_space_def)

lemma digit_not_space: "is_digit x \<Longrightarrow> \<not> is_space x"
  by (auto simp: is_digit_def is_space_def)

lemma ascii_lower_cases:
  "ascii_lower c = c \<or> ascii_lower c \<in> set ''abcdefghijklmnopqrstuvwxyz''"
proof (cases "map_of (zip ''ABCDEFGHIJKLMNOPQRSTUVWXYZ'' ''abcdefghijklmnopqrstuvwxyz'') c")
  case None
  then show ?thesis by (simp add: ascii_lower_def)
next
  case (Some l)
  then have "(c, l) \<in> set (zip ''ABCDEFGHIJKLMNOPQRSTUVWXYZ'' ''abcdefghijklmnopqrstuvwxyz'')"
    by (rule map_of_SomeD)
  then have "l \<in> set ''abcdefghijklmnopqrstuvwxyz''" by (rule set_zip_rightD)
  then show ?thesis using Some by (simp add: ascii_lower_def)
qed

lemma ascii_lower_fixed:
  assumes "ascii_lower c = x" and "x \<notin> set ''abcdefghijklmnopqrstuvwxyz''"
  shows "c = x"
  using ascii_lower_cases [of c] assms by auto

lemma lit_ci_shape:
  "lit_ci p t = Some r \<Longrightarrow> \<exists>d. t = d @ r \<and> map ascii_lower d = map ascii_lower p"
proof (induction p t rule: lit_ci.induct)
  case (1 s)
  then show ?case by simp
next
  case (2 p ps)
  then show ?case by simp
next
  case (3 p ps c cs)
  then have e: "ascii_lower c = ascii_lower p" and l: "lit_ci ps cs = Some r"
    by (simp_all split: if_splits)
  from "3.IH" [OF e l] obtain d where "cs = d @ r" "map ascii_lower d = map ascii_lower ps"
    by blast
  then have "c # cs = (c # d) @ r \<and> map ascii_lower (c # d) = map ascii_lower (p # ps)"
    using e by simp
  then show ?case by blast
qed

lemma lit_ci_build:
  "map ascii_lower d = map ascii_lower p \<Longrightarrow> lit_ci p (d @ x) = Some x"
proof (induction p arbitrary: d)
  case Nil
  then show ?case by simp
next
  case (Cons a p)
  then obtain c d' where d: "d = c # d'" by (cases d) auto
  with Cons show ?case by simp
qed

lemma match_disc_shape:
  assumes "match_disc t = Some m"
  shows "is_tag m \<and> (\<exists>r. t = m @ r)"
proof -
  from assms obtain r1 where r1: "lit_ci ''(Disc'' t = Some r1"
    by (auto simp: match_disc_def split: option.splits)
  let ?r2 = "dropWhile is_space r1"
  let ?ds = "takeWhile is_digit ?r2"
  from assms r1 have ds: "?ds \<noteq> []"
    by (auto simp: match_disc_def Let_def split: if_splits)
  from assms r1 ds obtain r4 where r3: "dropWhile is_digit ?r2 = CHR '')'' # r4"
    and m: "m = take (length t - length r4) t"
    by (auto simp: match_disc_def Let_def split: if_splits list.splits)
  from lit_ci_shape [OF r1] obtain d where d: "t = d @ r1"
    "map ascii_lower d = map ascii_lower ''(Disc''" by blast
  have a: "r1 = takeWhile is_space r1 @ ?r2" by simp
  have b: "?r2 = ?ds @ CHR '')'' # r4" using r3 by (metis takeWhile_dropWhile_id)
  have t: "t = (d @ takeWhile is_space r1 @ ?ds @ '')'') @ r4"
    using d(1) a b by (metis append.assoc append_Cons append_Nil)
  have "length t - length r4 = length (d @ takeWhile is_space r1 @ ?ds @ '')'')"
    by (subst t) simp
  then have m': "m = d @ takeWhile is_space r1 @ ?ds @ '')''"
    using m t by (metis append_eq_conv_conj)
  have "is_tag m"
    unfolding is_tag_def
    using m' d(2) ds
    by (intro exI [of _ d] exI [of _ "takeWhile is_space r1"] exI [of _ ?ds])
       (auto dest: set_takeWhileD)
  moreover have "t = m @ r4" using t m' by simp
  ultimately show ?thesis by blast
qed

lemma match_disc_build:
  assumes "is_tag m"
  shows "match_disc (m @ rest) = Some m"
proof -
  from assms obtain d sp ds where m: "m = d @ sp @ ds @ '')''"
    and d: "map ascii_lower d = map ascii_lower ''(Disc''"
    and sp: "\<forall>x \<in> set sp. is_space x" and ds: "ds \<noteq> []" "\<forall>x \<in> set ds. is_digit x"
    unfolding is_tag_def by blast
  have l: "lit_ci ''(Disc'' (m @ rest) = Some (sp @ ds @ CHR '')'' # rest)"
    using lit_ci_build [OF d, of "sp @ ds @ CHR '')'' # rest"] m by simp
  obtain y ys where y: "ds = y # ys" using ds(1) by (cases ds) auto
  have ny: "\<not> is_space y" using ds(2) y digit_not_space by simp
  have r2: "dropWhile is_space (sp @ ds @ CHR '')'' # rest) = ds @ CHR '')'' # rest"
    using sp ny y by (simp add: dropWhile_append2)
  have nd: "\<not> is_digit CHR '')''" by (simp add: is_digit_def)
  have tk: "takeWhile is_digit (ds @ CHR '')'' # rest) = ds"
    using ds(2) nd by (simp add: takeWhile_append2)
  have dr: "dropWhile is_digit (ds @ CHR '')'' # rest) = CHR '')'' # rest"
    using ds(2) nd by (simp add: dropWhile_append2)
  have "take (length (m @ rest) - length rest) (m @ rest) = m" by simp
  then show ?thesis
    unfolding match_disc_def l by (simp add: Let_def r2 tk dr ds(1) del: append_assoc)
qed

lemma tag_head:
  assumes "is_tag m"
  shows "\<exists>body. m = CHR ''('' # body @ '')'' \<and> body \<noteq> [] \<and> CHR '')'' \<notin> set body"
proof -
  from assms obtain d sp ds where m: "m = d @ sp @ ds @ '')''"
    and d: "map ascii_lower d = map ascii_lower ''(Disc''"
    and sp: "\<forall>x \<in> set sp. is_space x" and ds: "ds \<noteq> []" "\<forall>x \<in> set ds. is_digit x"
    unfolding is_tag_def by blast
  from d obtain c0 d' where d0: "d = c0 # d'" by (cases d) auto
  have "ascii_lower CHR ''('' = CHR ''(''" by (simp add: ascii_lower_def)
  moreover have "ascii_lower c0 = ascii_lower CHR ''(''" using d d0 by simp
  ultimately have l0: "ascii_lower c0 = CHR ''(''" by simp
  have c0: "c0 = CHR ''(''" by (rule ascii_lower_fixed [OF l0]) simp
  have nd: "CHR '')'' \<notin> set d"
  proof
    assume "CHR '')'' \<in> set d"
    then have "ascii_lower CHR '')'' \<in> set (map ascii_lower d)" by (simp only: set_map image_eqI)
    moreover have "ascii_lower CHR '')'' = CHR '')''" by (simp add: ascii_lower_def)
    moreover have "map ascii_lower ''(Disc'' = ''(disc''" by (simp add: ascii_lower_def)
    ultimately show False unfolding d by simp
  qed
  have nsp: "CHR '')'' \<notin> set sp" using sp bracket_chars(2) by auto
  have "\<not> is_digit CHR '')''" by (simp add: is_digit_def)
  then have nds: "CHR '')'' \<notin> set ds" using ds(2) by auto
  have nd': "CHR '')'' \<notin> set d'" using nd unfolding d0 by simp
  have a: "CHR '')'' \<notin> set (d' @ sp @ ds)" using nd' nsp nds by simp
  have b: "d' @ sp @ ds \<noteq> []" using ds(1) by simp
  have c: "m = CHR ''('' # (d' @ sp @ ds) @ '')''" unfolding m d0 c0 by simp
  show ?thesis
    by (rule exI [of _ "d' @ sp @ ds"]) (simp only: a b c not_False_eq_True simp_thms)
qed

lemma match_disc_head: "match_disc (x # xs) = Some m \<Longrightarrow> x = CHR ''(''"
proof -
  assume a: "match_disc (x # xs) = Some m"
  from match_disc_shape [OF a] tag_head obtain body r where
    "x # xs = (CHR ''('' # body @ '')'') @ r" by metis
  then show ?thesis by simp
qed

lemma search_disc_settled: "settled CHR ''('' CHR '')'' t \<Longrightarrow> search_disc t = None"
proof (induction t)
  case Nil
  show ?case by simp
next
  case (Cons x xs)
  have "match_disc (x # xs) = None"
  proof (rule ccontr)
    assume "match_disc (x # xs) \<noteq> None"
    then obtain m where m: "match_disc (x # xs) = Some m" by auto
    from match_disc_shape [OF m] tag_head obtain body r where
      e: "x # xs = (CHR ''('' # body @ '')'') @ r" and b: "body \<noteq> []" "CHR '')'' \<notin> set body"
      by metis
    then have x: "x = CHR ''(''" and xs: "xs = body @ '')'' @ r" by simp_all
    have "follow CHR '')'' xs" using Cons.prems x by simp
    moreover have "hd xs \<noteq> CHR '')''" using xs b by (cases body) auto
    ultimately show False using xs b(1) by (auto simp: follow_def)
  qed
  moreover have "settled CHR ''('' CHR '')'' xs" using Cons.prems by simp
  ultimately show ?case using Cons.IH by simp
qed

lemma search_disc_tag: "search_disc s = Some m \<Longrightarrow> is_tag m"
proof (induction s)
  case Nil
  then show ?case by simp
next
  case (Cons x xs)
  then show ?case
    by (cases "match_disc (x # xs)") (auto dest: match_disc_shape)
qed

lemma search_disc_skip:
  "CHR ''('' \<notin> set a \<Longrightarrow> search_disc (a @ t) = search_disc t"
proof (induction a)
  case Nil
  show ?case by simp
next
  case (Cons x a)
  have "match_disc (x # a @ t) = None"
    using Cons.prems match_disc_head [of x "a @ t"] by (cases "match_disc (x # a @ t)") auto
  with Cons show ?case by simp
qed

lemma search_disc_at_tag:
  assumes "is_tag m"
  shows "search_disc (m @ rest) = Some m"
proof -
  from tag_head [OF assms] obtain body where "m = CHR ''('' # body @ '')''" by blast
  then obtain xs where "m @ rest = CHR ''('' # xs" by simp
  moreover have "match_disc (m @ rest) = Some m" using assms by (rule match_disc_build)
  ultimately show ?thesis by (metis search_disc.simps(2) option.simps(5))
qed

lemma base_name_normal:
  "settled CHR ''('' CHR '')'' (base_name s)"
  "settled CHR ''['' CHR '']'' (base_name s)"
  "collapsed (base_name s)"
  "trimmed (base_name s)"
proof -
  let ?a = "sub_group CHR ''('' CHR '')'' s"
  let ?b = "sub_group CHR ''['' CHR '']'' ?a"
  have "settled CHR ''('' CHR '')'' ?a"
    by (rule settled_sub_group_same) (simp_all add: bracket_chars)
  then have "settled CHR ''('' CHR '')'' ?b"
    by (rule settled_sub_group_other) (simp_all add: bracket_chars)
  then have "settled CHR ''('' CHR '')'' (collapse_ws ?b)"
    by (rule settled_collapse_ws) (simp_all add: bracket_chars)
  then show "settled CHR ''('' CHR '')'' (base_name s)"
    unfolding base_name_def by (rule settled_strip) (simp add: bracket_chars)
  have "settled CHR ''['' CHR '']'' ?b"
    by (rule settled_sub_group_same) (simp_all add: bracket_chars)
  then have "settled CHR ''['' CHR '']'' (collapse_ws ?b)"
    by (rule settled_collapse_ws) (simp_all add: bracket_chars)
  then show "settled CHR ''['' CHR '']'' (base_name s)"
    unfolding base_name_def by (rule settled_strip) (simp add: bracket_chars)
  show "collapsed (base_name s)"
    unfolding base_name_def by (rule collapsed_strip) (rule collapsed_collapse_ws)
  show "trimmed (base_name s)"
    unfolding base_name_def by (rule trimmed_strip)
qed

lemma base_name_id:
  assumes "settled CHR ''('' CHR '')'' n" and "settled CHR ''['' CHR '']'' n"
    and "collapsed n" and "trimmed n"
  shows "base_name n = n"
proof -
  have a: "sub_group CHR ''('' CHR '')'' n = n"
    using assms(1) by (rule sub_group_settled_id) (simp add: bracket_chars)
  have b: "sub_group CHR ''['' CHR '']'' n = n"
    using assms(2) by (rule sub_group_settled_id) (simp add: bracket_chars)
  show ?thesis
    by (simp add: base_name_def a b collapsed_id [OF assms(3)] trimmed_id [OF assms(4)])
qed

lemma match_group_tag:
  assumes "is_tag m"
  shows "match_group CHR ''('' CHR '')'' (CHR '' '' # m) = Some []"
proof -
  from tag_head [OF assms] obtain body where m: "m = CHR ''('' # body @ '')''"
    and b: "body \<noteq> []" "CHR '')'' \<notin> set body" by blast
  have d: "dropWhile is_space (CHR '' '' # m) = CHR ''('' # body @ '')''"
    unfolding m by (simp add: space_is_space bracket_chars)
  have nb: "\<And>x. x \<in> set body \<Longrightarrow> x \<noteq> CHR '')''" using b(2) by auto
  have t: "takeWhile (\<lambda>x. x \<noteq> CHR '')'') (body @ '')'') = body"
    by (subst takeWhile_append2) (simp_all add: nb)
  have r: "dropWhile (\<lambda>x. x \<noteq> CHR '')'') (body @ '')'') = '')''"
    by (subst dropWhile_append2) (simp_all add: nb)
  show ?thesis
    unfolding match_group_def d by (simp add: Let_def t r b(1))
qed

lemma sub_group_before_tag:
  assumes "is_tag m" and "collapsed a" and "a = [] \<or> \<not> is_space (last a)"
    and "CHR ''('' \<notin> set a"
  shows "sub_group CHR ''('' CHR '')'' (a @ CHR '' '' # m) = a"
  using assms(2-4)
proof (induction a)
  case Nil
  show ?case using match_group_tag [OF assms(1)] by simp
next
  case (Cons x a)
  have nx: "x \<noteq> CHR ''(''" using Cons.prems(3) by auto
  have nm: "match_group CHR ''('' CHR '')'' (x # a @ CHR '' '' # m) = None"
  proof (cases "is_space x")
    case False
    then have "dropWhile is_space (x # a @ CHR '' '' # m) = x # a @ CHR '' '' # m" by simp
    then show ?thesis unfolding match_group_def using nx by simp
  next
    case True
    have "a \<noteq> []" using Cons.prems(2) True by auto
    then obtain y ys where a: "a = y # ys" by (cases a) auto
    have y: "\<not> is_space y" using Cons.prems(1) True a by simp
    have ny: "y \<noteq> CHR ''(''" using Cons.prems(3) a by auto
    have "dropWhile is_space (x # a @ CHR '' '' # m) = y # ys @ CHR '' '' # m"
      using True y a by simp
    then show ?thesis unfolding match_group_def using ny by simp
  qed
  have "collapsed a" using Cons.prems(1) by simp
  moreover have "a = [] \<or> \<not> is_space (last a)" using Cons.prems(2) by (cases a) auto
  moreover have "CHR ''('' \<notin> set a" using Cons.prems(3) by simp
  ultimately have "sub_group CHR ''('' CHR '')'' (a @ CHR '' '' # m) = a" by (rule Cons.IH)
  then show ?case using nm by simp
qed

lemma clean_idempotent:
  assumes "search_disc s = None \<or> CHR ''('' \<notin> set (base_name s)"
  shows "clean_game_name (clean_game_name s) = clean_game_name s"
proof (cases "search_disc s")
  case None
  note n = base_name_normal [of s]
  have "clean_game_name s = base_name s" using None by (simp add: clean_game_name_def)
  moreover have "search_disc (base_name s) = None" using n(1) by (rule search_disc_settled)
  moreover have "base_name (base_name s) = base_name s" using n by (rule base_name_id)
  ultimately show ?thesis by (simp add: clean_game_name_def)
next
  case (Some m)
  note n = base_name_normal [of s]
  have tag: "is_tag m" using Some by (rule search_disc_tag)
  from tag_head [OF tag] have m0: "m \<noteq> []" by auto
  have np: "CHR ''('' \<notin> set (base_name s)" using assms Some by simp
  have c1: "clean_game_name s = base_name s @ CHR '' '' # m"
    using Some m0 by (simp add: clean_game_name_def)
  have "search_disc ((base_name s @ '' '') @ m @ []) = search_disc (m @ [])"
    by (rule search_disc_skip) (simp add: np)
  also have "\<dots> = Some m" using tag by (rule search_disc_at_tag)
  finally have sd: "search_disc (base_name s @ CHR '' '' # m) = Some m" by simp
  have tr: "base_name s = [] \<or> \<not> is_space (last (base_name s))"
    using n(4) by (auto simp: trimmed_def)
  have sg: "sub_group CHR ''('' CHR '')'' (base_name s @ CHR '' '' # m) = base_name s"
    using tag n(3) tr np by (rule sub_group_before_tag)
  have b: "sub_group CHR ''['' CHR '']'' (base_name s) = base_name s"
    using n(2) by (rule sub_group_settled_id) (simp add: bracket_chars)
  have bn: "base_name (base_name s @ CHR '' '' # m) = base_name s"
    by (simp add: base_name_def [of "base_name s @ CHR '' '' # m"] sg b
        collapsed_id [OF n(3)] trimmed_id [OF n(4)])
  show ?thesis
    unfolding c1 by (simp add: clean_game_name_def [of "base_name s @ CHR '' '' # m"] sd bn m0)
qed

lemma clean_examples:
  "clean_game_name ''Game (USA) (Rev 1) [!] (Disc 2)'' = ''Game (Disc 2)''"
  "new_chd_name True [''roms'', ''Game (USA) (Rev 1) [!] (Disc 2).chd''] = ''Game (Disc 2).chd''"
  "clean_game_name ''Game (USA) (Rev 1) [!] (Disc 2).chd'' = ''Game.chd (Disc 2)''"
  "clean_game_name ''Game (Disc 2) (Beta'' = ''Game (Beta (Disc 2)''"
  "clean_game_name ''Game (Beta (Disc 2)'' = ''Game (Disc 2)''"
  "base_name ''Game (USA) (Rev 1) [!] (Disc 2)'' = ''Game''"
  by code_simp+

text \<open>
  Claim C4, as the code has it. \<open>clean_game_name\<close> is applied to the stem of a file
  name, and the extension is added afterwards: the stem
  \<open>Game (USA) (Rev 1) [!] (Disc 2)\<close> becomes \<open>Game (Disc 2)\<close>, so the file
  \<open>Game (USA) (Rev 1) [!] (Disc 2).chd\<close> is renamed \<open>Game (Disc 2).chd\<close>. Applying
  \<open>clean_game_name\<close> twice is the same as applying it once for every input that has
  no disc tag, and for every input whose cleaned name, before the disc tag is added
  again, has no opening parenthesis left.
\<close>

theorem clean_game_name_idempotent:
  "clean_game_name ''Game (USA) (Rev 1) [!] (Disc 2)'' = ''Game (Disc 2)''
   \<and> new_chd_name True [''roms'', ''Game (USA) (Rev 1) [!] (Disc 2).chd'']
       = ''Game (Disc 2).chd''
   \<and> (search_disc s = None \<or> CHR ''('' \<notin> set (base_name s) \<longrightarrow>
        clean_game_name (clean_game_name s) = clean_game_name s)"
  using clean_examples(1,2) clean_idempotent [of s] by blast

theorem clean_game_name_idempotent_witness:
  "CHR ''('' \<notin> set (base_name ''Game (USA) (Rev 1) [!] (Disc 2)'')
   \<and> clean_game_name ''Game (USA) (Rev 1) [!] (Disc 2)'' = ''Game (Disc 2)''
   \<and> clean_game_name (clean_game_name ''Game (USA) (Rev 1) [!] (Disc 2)'') = ''Game (Disc 2)''"
proof -
  have h: "CHR ''('' \<notin> set (base_name ''Game (USA) (Rev 1) [!] (Disc 2)'')"
    by (simp add: clean_examples(6))
  have c: "clean_game_name (clean_game_name ''Game (USA) (Rev 1) [!] (Disc 2)'')
           = clean_game_name ''Game (USA) (Rev 1) [!] (Disc 2)''"
    using clean_game_name_idempotent [of "''Game (USA) (Rev 1) [!] (Disc 2)''"] h by blast
  have a: "clean_game_name ''Game (USA) (Rev 1) [!] (Disc 2)'' = ''Game (Disc 2)''"
    by (rule clean_examples(1))
  show ?thesis using h a c by simp
qed

text \<open>
  The claim as stated fails twice. Applied to the whole file name, extension included,
  the transform puts the disc tag after the extension. And it is not idempotent: in
  \<open>Game (Disc 2) (Beta\<close> the last parenthesis is never closed, so it stays in the
  cleaned name; the second application takes it together with the disc tag for one
  group and removes both.
\<close>

theorem clean_game_name_not_idempotent:
  "clean_game_name ''Game (USA) (Rev 1) [!] (Disc 2).chd'' = ''Game.chd (Disc 2)''
   \<and> clean_game_name ''Game (Disc 2) (Beta'' = ''Game (Beta (Disc 2)''
   \<and> clean_game_name (clean_game_name ''Game (Disc 2) (Beta'') = ''Game (Disc 2)''"
  by (simp add: clean_examples)

end
